theory Spec2Isabelle
  imports Main "HOL-Library.AList" "HOL-Library.Sublist" "HOL-Library.Word"
begin

unbundle bit_operations_syntax

section \<open>Python values, exceptions and the object store\<close>

text \<open>
  The values a tool receives and returns, and the values that can appear as metadata
  inside an annotation: \<open>None\<close>, booleans, integers, strings and tuples.
\<close>

datatype pyval = PNone | PBool bool | PInt int | PStr string | PTuple "pyval list"

text \<open>
  A raised exception: the name of its class, its message, and the formatted stack entries
  that \<open>traceback.format_exc()\<close> prints for it (outermost call first).
\<close>

datatype exc = Exc (etype: string) (emsg: string) (etb: "string list")

text \<open>
  \<open>traceback.format_exc()\<close>: the header line, the stack entries, then the line
  \<open>Type: message\<close> (only \<open>Type\<close> when the message is empty).
\<close>

definition format_exc :: "exc \<Rightarrow> string" where
  "format_exc e =
     ''Traceback (most recent call last):'' @ [CHR 0x0A] @ concat (etb e) @ etype e @
     (if emsg e = [] then [] else '': '' @ emsg e) @ [CHR 0x0A]"

text \<open>
  Mutable containers live in a store; an address is an index into it. A dict keeps its
  items in insertion order, a list its elements. A stored value is an immutable string or
  boolean, or a reference to a container.
\<close>

datatype val = VStr string | VBool bool | VRef nat

datatype obj = Dict "(string \<times> val) list" | List "val list"

type_synonym heap = "obj list"

definition alloc :: "obj \<Rightarrow> heap \<Rightarrow> nat \<times> heap" where
  "alloc ob h = (length h, h @ [ob])"

text \<open>\<open>xs.append(v)\<close> on the list object at address \<open>a\<close>.\<close>

definition list_append :: "heap \<Rightarrow> nat \<Rightarrow> val \<Rightarrow> heap" where
  "list_append h a v = (case h ! a of List xs \<Rightarrow> h[a := List (xs @ [v])] | Dict kvs \<Rightarrow> h)"

text \<open>
  \<open>d[k] = v\<close> on the dict object at address \<open>a\<close>: an existing key keeps its
  position and gets the new value, a new key goes to the end.
\<close>

definition dict_setitem :: "heap \<Rightarrow> nat \<Rightarrow> string \<Rightarrow> val \<Rightarrow> heap" where
  "dict_setitem h a k v =
     (case h ! a of Dict kvs \<Rightarrow> h[a := Dict (AList.update k v kvs)] | List xs \<Rightarrow> h)"

section \<open>Tool declarations\<close>

text \<open>
  A type expression: a class (\<open>str\<close>, \<open>int\<close>) or a parameterized generic such as
  \<open>list[str]\<close>, an instance of \<open>types.GenericAlias\<close>.
\<close>

datatype pytype = Class string | GenericAlias string "pytype list"

text \<open>
  A parameter's annotation: none (\<open>inspect.Parameter.empty\<close>), a bare type, or
  \<open>Annotated[t, m, ...]\<close> with at least one metadata value.
\<close>

datatype annotation = Empty | Bare pytype | Annotated pytype pyval "pyval list"

text \<open>What \<open>typing.get_origin\<close> returns: \<open>None\<close>, the form \<open>Annotated\<close>, or a class.\<close>

datatype origin = ONone | OAnnotated | OClass string

fun get_origin :: "annotation \<Rightarrow> origin" where
  "get_origin Empty = ONone"
| "get_origin (Bare (Class c)) = ONone"
| "get_origin (Bare (GenericAlias c ts)) = OClass c"
| "get_origin (Annotated t m ms) = OAnnotated"

text \<open>\<open>get_args(annotation)[1]\<close>: the first metadata value of an \<open>Annotated\<close>.\<close>

fun get_args_1 :: "annotation \<Rightarrow> pyval" where
  "get_args_1 (Annotated t m ms) = m"
| "get_args_1 a = PNone"

text \<open>
  \<open>isinstance(typ, GenericAlias)\<close> on a result of \<open>get_origin\<close>: an origin is an
  unsubscripted form or class, never a \<open>GenericAlias\<close>.
\<close>

fun isinstance_GenericAlias :: "origin \<Rightarrow> bool" where
  "isinstance_GenericAlias og = False"

text \<open>\<open>str(typ)\<close> and \<open>typ.__name__\<close> on a result of \<open>get_origin\<close>.\<close>

fun origin_str :: "origin \<Rightarrow> string" where
  "origin_str ONone = ''None''"
| "origin_str OAnnotated = ''typing.Annotated''"
| "origin_str (OClass c) = ''<class '' @ [CHR 0x27] @ c @ [CHR 0x27] @ ''>''"

fun origin_name :: "origin \<Rightarrow> string" where
  "origin_name ONone = ''NoneType''"
| "origin_name OAnnotated = ''Annotated''"
| "origin_name (OClass c) = c"

text \<open>The \<open>isinstance\<close> tests of \<open>register_tool\<close> and the contents they guard.\<close>

fun isinstance_tuple :: "pyval \<Rightarrow> bool" where
  "isinstance_tuple (PTuple xs) = True"
| "isinstance_tuple v = False"

fun tuple_items :: "pyval \<Rightarrow> pyval list" where
  "tuple_items (PTuple xs) = xs"
| "tuple_items v = []"

fun isinstance_str :: "pyval \<Rightarrow> bool" where
  "isinstance_str (PStr x) = True"
| "isinstance_str v = False"

fun str_value :: "pyval \<Rightarrow> string" where
  "str_value (PStr x) = x"
| "str_value v = []"

fun isinstance_bool :: "pyval \<Rightarrow> bool" where
  "isinstance_bool (PBool b) = True"
| "isinstance_bool v = False"

fun bool_value :: "pyval \<Rightarrow> bool" where
  "bool_value (PBool b) = b"
| "bool_value v = False"

type_synonym kwargs = "(string \<times> pyval) list"

text \<open>
  A callable handed to \<open>register_tool\<close>: its \<open>__name__\<close>, the result of
  \<open>inspect.getdoc\<close> (\<open>None\<close> when it has no docstring), its parameters in declaration
  order with their annotations, and what calling it with keyword arguments does: raise or
  return a value.
\<close>

record func =
  name :: string
  getdoc :: "string option"
  parameters :: "(string \<times> annotation) list"
  call :: "kwargs \<Rightarrow> exc + pyval"

section \<open>The registry\<close>

text \<open>
  The module's state: the store, the dict \<open>_TOOL_HOOKS\<close> (tool name to callable) and the
  address of the dict object \<open>_TOOL_DESCRIPTIONS\<close> (tool name to a reference to the tool's
  definition).
\<close>

record state =
  heap :: heap
  TOOL_HOOKS :: "(string \<times> func) list"
  TOOL_DESCRIPTIONS :: nat

definition init :: state where
  "init = \<lparr>heap = [Dict []], TOOL_HOOKS = [], TOOL_DESCRIPTIONS = 0\<rparr>"

text \<open>\<open>str.strip()\<close>: drops the whitespace characters at both ends.\<close>

definition isspace :: "char \<Rightarrow> bool" where
  "isspace c = (c \<in> set [CHR 0x09, CHR 0x0A, CHR 0x0B, CHR 0x0C, CHR 0x0D, CHR 0x1C,
                          CHR 0x1D, CHR 0x1E, CHR 0x1F, CHR 0x20, CHR 0x85, CHR 0xA0])"

definition strip :: "string \<Rightarrow> string" where
  "strip s = rev (dropWhile isspace (rev (dropWhile isspace s)))"

definition TypeError :: "string \<Rightarrow> exc" where
  "TypeError m = Exc ''TypeError'' m []"

text \<open>
  The body of the loop of \<open>register_tool\<close> for one parameter, up to the dict literal
  it builds: the checks in the source's order, each raising \<open>TypeError\<close>. \<open>typ\<close> is
  assigned from \<open>get_origin(annotation)\<close>, which the second check has just established to
  be \<open>Annotated\<close>.
\<close>

definition param_entry :: "string \<Rightarrow> annotation \<Rightarrow> exc + obj" where
  "param_entry pname ann =
     (if ann = Empty
      then Inl (TypeError (''Parameter `'' @ pname @ ''` missing type annotation''))
      else if get_origin ann \<noteq> OAnnotated
      then Inl (TypeError (''Annotation type for `'' @ pname @ ''` must be typing.Annotated''))
      else
        let typ = get_origin ann;
            metadata = get_args_1 ann
        in if \<not> (isinstance_tuple metadata \<and> length (tuple_items metadata) = 2)
           then Inl (TypeError (''Metadata for `'' @ pname @
                  ''` must be a tuple with two elements (description, required)''))
           else
             let description = tuple_items metadata ! 0;
                 required = tuple_items metadata ! 1;
                 typ_s = (if isinstance_GenericAlias typ then origin_str typ
                          else origin_name typ)
             in if \<not> isinstance_str description
                then Inl (TypeError (''Description for `'' @ pname @ ''` must be a string''))
                else if \<not> isinstance_bool required
                then Inl (TypeError (''Required for `'' @ pname @ ''` must be a bool''))
                else Inr (Dict [(''name'', VStr pname),
                                (''description'', VStr (str_value description)),
                                (''type'', VStr typ_s),
                                (''required'', VBool (bool_value required))]))"

text \<open>
  The loop of \<open>register_tool\<close> over the parameters. \<open>tp\<close> is the address of the list
  \<open>tool_params\<close>; each accepted parameter allocates its dict and appends a reference to it.
  The first rejected parameter raises.
\<close>

fun params_loop :: "(string \<times> annotation) list \<Rightarrow> heap \<Rightarrow> nat \<Rightarrow> exc + heap" where
  "params_loop [] h tp = Inr h"
| "params_loop ((pname, ann) # ps) h tp =
     (case param_entry pname ann of
        Inl e \<Rightarrow> Inl e
      | Inr d \<Rightarrow> (let (pa, h1) = alloc d h
                  in params_loop ps (list_append h1 tp (VRef pa)) tp))"

text \<open>
  \<open>register_tool\<close>. A callable without docstring makes \<open>inspect.getdoc\<close> return
  \<open>None\<close>, and \<open>None.strip()\<close> raises \<open>AttributeError\<close>. Both tables are written
  after the loop, so a raise leaves the state as it was: the objects allocated so far are
  locals of the abandoned call. The \<open>print\<close> of the definition is not modelled.
\<close>

definition register_tool :: "func \<Rightarrow> state \<Rightarrow> (exc + func) \<times> state" where
  "register_tool f s =
     (let tool_name = name f in
      case getdoc f of
        None \<Rightarrow> (Inl (Exc ''AttributeError''
                   ([CHR 0x27] @ ''NoneType'' @ [CHR 0x27] @ '' object has no attribute '' @
                    [CHR 0x27] @ ''strip'' @ [CHR 0x27]) []), s)
      | Some doc \<Rightarrow>
          (let tool_description = strip doc;
               (tp, h1) = alloc (List []) (heap s)
           in case params_loop (parameters f) h1 tp of
                Inl e \<Rightarrow> (Inl e, s)
              | Inr h2 \<Rightarrow>
                  (let (td, h3) = alloc (Dict [(''name'', VStr tool_name),
                                               (''description'', VStr tool_description),
                                               (''params'', VRef tp)]) h2
                   in (Inr f,
                       s\<lparr>heap := dict_setitem h3 (TOOL_DESCRIPTIONS s) tool_name (VRef td),
                         TOOL_HOOKS := AList.update tool_name f (TOOL_HOOKS s)\<rparr>))))"

section \<open>Dispatch\<close>

text \<open>\<open>str\<close> and \<open>repr\<close> of a value.\<close>

function nat_str :: "nat \<Rightarrow> string" where
  "nat_str n = (if n < 10 then [char_of (48 + n)]
                else nat_str (n div 10) @ [char_of (48 + n mod 10)])"
  by pat_completeness auto
termination
  by (relation "measure id") auto

definition hexdigit :: "nat \<Rightarrow> char" where
  "hexdigit n = ''0123456789abcdef'' ! n"

definition repr_char :: "char \<Rightarrow> char \<Rightarrow> string" where
  "repr_char q c =
     (let n = (of_char c :: nat) in
      if c = q \<or> c = CHR 0x5C then [CHR 0x5C, c]
      else if c = CHR 0x09 then [CHR 0x5C, CHR ''t'']
      else if c = CHR 0x0A then [CHR 0x5C, CHR ''n'']
      else if c = CHR 0x0D then [CHR 0x5C, CHR ''r'']
      else if n < 32 \<or> n = 127 \<or> (128 \<le> n \<and> n \<le> 160) \<or> n = 173
      then [CHR 0x5C, CHR ''x'', hexdigit (n div 16), hexdigit (n mod 16)]
      else [c])"

definition repr_str :: "string \<Rightarrow> string" where
  "repr_str x =
     (let q = (if CHR 0x27 \<in> set x \<and> CHR 0x22 \<notin> set x then CHR 0x22 else CHR 0x27)
      in [q] @ concat (map (repr_char q) x) @ [q])"

fun join :: "string \<Rightarrow> string list \<Rightarrow> string" where
  "join sep [] = []"
| "join sep [x] = x"
| "join sep (x # y # ys) = x @ sep @ join sep (y # ys)"

fun py_repr :: "pyval \<Rightarrow> string" where
  "py_repr PNone = ''None''"
| "py_repr (PBool b) = (if b then ''True'' else ''False'')"
| "py_repr (PInt i) = (if i < 0 then ''-'' @ nat_str (nat (- i)) else nat_str (nat i))"
| "py_repr (PStr x) = repr_str x"
| "py_repr (PTuple xs) =
     (if length xs = 1 then ''('' @ join '', '' (map py_repr xs) @ '',)''
      else ''('' @ join '', '' (map py_repr xs) @ '')'')"

definition py_str :: "pyval \<Rightarrow> string" where
  "py_str v = (if isinstance_str v then str_value v else py_repr v)"

text \<open>
  \<open>dispatch_tool\<close>. The result is a raise or the returned string, with the state after
  the call. The bare \<open>except\<close> catches whatever the call raises, also the
  \<open>TypeError\<close> of a keyword that matches no parameter.
\<close>

definition dispatch_tool :: "string \<Rightarrow> kwargs \<Rightarrow> state \<Rightarrow> (exc + string) \<times> state" where
  "dispatch_tool tool_name tool_params s =
     (case map_of (TOOL_HOOKS s) tool_name of
        None \<Rightarrow> (Inr (''Tool `'' @ tool_name @ ''` not found. Please use a provided tool.''), s)
      | Some tool_call \<Rightarrow>
          (let ret = (case call tool_call tool_params of
                        Inr v \<Rightarrow> v
                      | Inl e \<Rightarrow> PStr (format_exc e))
           in (Inr (py_str ret), s)))"

section \<open>The catalog\<close>

text \<open>
  \<open>copy.deepcopy\<close> on the store. Strings and booleans are returned as they are. A
  container found in the memo yields the copy made before; otherwise a new container is
  allocated, entered into the memo under the original's address, and filled with the
  copies of the original's items (the keys of a dict are strings, copied as they are).
  The first argument bounds the depth of the recursion; \<open>None\<close> is a copy that is not
  returned.
\<close>

type_synonym memo = "(nat \<times> nat) list"

fun children :: "obj \<Rightarrow> val list" where
  "children (Dict kvs) = map snd kvs"
| "children (List xs) = xs"

fun rebuild :: "obj \<Rightarrow> val list \<Rightarrow> obj" where
  "rebuild (Dict kvs) vs = Dict (zip (map fst kvs) vs)"
| "rebuild (List xs) vs = List vs"

fun deepcopy :: "nat \<Rightarrow> val \<Rightarrow> heap \<Rightarrow> memo \<Rightarrow> (val \<times> heap \<times> memo) option"
  and deepcopy_items ::
    "nat \<Rightarrow> val list \<Rightarrow> heap \<Rightarrow> memo \<Rightarrow> (val list \<times> heap \<times> memo) option" where
  "deepcopy n (VStr x) h m = Some (VStr x, h, m)"
| "deepcopy n (VBool b) h m = Some (VBool b, h, m)"
| "deepcopy 0 (VRef a) h m = None"
| "deepcopy (Suc n) (VRef a) h m =
     (case map_of m a of
        Some y \<Rightarrow> Some (VRef y, h, m)
      | None \<Rightarrow>
          if length h \<le> a then None
          else
            (let (y, h1) = alloc (rebuild (h ! a) []) h in
             case deepcopy_items n (children (h ! a)) h1 ((a, y) # m) of
               None \<Rightarrow> None
             | Some (vs, h2, m2) \<Rightarrow> Some (VRef y, h2[y := rebuild (h ! a) vs], m2)))"
| "deepcopy_items n [] h m = Some ([], h, m)"
| "deepcopy_items n (v # vs) h m =
     (case deepcopy n v h m of
        None \<Rightarrow> None
      | Some (v', h1, m1) \<Rightarrow>
          (case deepcopy_items n vs h1 m1 of
             None \<Rightarrow> None
           | Some (vs', h2, m2) \<Rightarrow> Some (v' # vs', h2, m2)))"

text \<open>
  \<open>get_tools\<close>: a deep copy of \<open>_TOOL_DESCRIPTIONS\<close>, with an empty memo. Without a
  cycle the recursion is no deeper than the number of objects in the store.
\<close>

definition get_tools :: "state \<Rightarrow> (val \<times> state) option" where
  "get_tools s =
     (case deepcopy (Suc (length (heap s))) (VRef (TOOL_DESCRIPTIONS s)) (heap s) [] of
        None \<Rightarrow> None
      | Some (v, h, m) \<Rightarrow> Some (v, s\<lparr>heap := h\<rparr>))"

text \<open>
  What a structure in the store looks like from a root value: the tree of its contents,
  and the addresses of the containers met on the way, in the order of the traversal.
\<close>

datatype tree = TStr string | TBool bool | TDict "(string \<times> tree) list" | TList "tree list"

fun build :: "obj \<Rightarrow> tree list \<Rightarrow> tree" where
  "build (Dict kvs) ts = TDict (zip (map fst kvs) ts)"
| "build (List xs) ts = TList ts"

fun read :: "nat \<Rightarrow> heap \<Rightarrow> val \<Rightarrow> (tree \<times> nat list) option"
  and read_items :: "nat \<Rightarrow> heap \<Rightarrow> val list \<Rightarrow> (tree list \<times> nat list) option" where
  "read n h (VStr x) = Some (TStr x, [])"
| "read n h (VBool b) = Some (TBool b, [])"
| "read 0 h (VRef a) = None"
| "read (Suc n) h (VRef a) =
     (if length h \<le> a then None
      else case read_items n h (children (h ! a)) of
             None \<Rightarrow> None
           | Some (ts, as) \<Rightarrow> Some (build (h ! a) ts, a # as))"
| "read_items n h [] = Some ([], [])"
| "read_items n h (v # vs) =
     (case read n h v of
        None \<Rightarrow> None
      | Some (t, as) \<Rightarrow>
          (case read_items n h vs of
             None \<Rightarrow> None
           | Some (ts, bs) \<Rightarrow> Some (t # ts, as @ bs)))"

section \<open>The tools of the module\<close>

text \<open>MD5 (RFC 1321) over bytes, as \<open>hashlib.md5(...).hexdigest()\<close> computes it.\<close>

definition md5_K :: "32 word list" where
  "md5_K =
    [0xd76aa478, 0xe8c7b756, 0x242070db, 0xc1bdceee,
     0xf57c0faf, 0x4787c62a, 0xa8304613, 0xfd469501,
     0x698098d8, 0x8b44f7af, 0xffff5bb1, 0x895cd7be,
     0x6b901122, 0xfd987193, 0xa679438e, 0x49b40821,
     0xf61e2562, 0xc040b340, 0x265e5a51, 0xe9b6c7aa,
     0xd62f105d, 0x02441453, 0xd8a1e681, 0xe7d3fbc8,
     0x21e1cde6, 0xc33707d6, 0xf4d50d87, 0x455a14ed,
     0xa9e3e905, 0xfcefa3f8, 0x676f02d9, 0x8d2a4c8a,
     0xfffa3942, 0x8771f681, 0x6d9d6122, 0xfde5380c,
     0xa4beea44, 0x4bdecfa9, 0xf6bb4b60, 0xbebfbc70,
     0x289b7ec6, 0xeaa127fa, 0xd4ef3085, 0x04881d05,
     0xd9d4d039, 0xe6db99e5, 0x1fa27cf8, 0xc4ac5665,
     0xf4292244, 0x432aff97, 0xab9423a7, 0xfc93a039,
     0x655b59c3, 0x8f0ccc92, 0xffeff47d, 0x85845dd1,
     0x6fa87e4f, 0xfe2ce6e0, 0xa3014314, 0x4e0811a1,
     0xf7537e82, 0xbd3af235, 0x2ad7d2bb, 0xeb86d391]"

definition md5_s :: "nat list" where
  "md5_s = concat (map (\<lambda>r. concat (replicate 4 r))
                     [[7, 12, 17, 22], [5, 9, 14, 20], [4, 11, 16, 23], [6, 10, 15, 21]])"

definition md5_pad :: "8 word list \<Rightarrow> 8 word list" where
  "md5_pad m =
     m @ [0x80] @ replicate ((55 + 64 - length m mod 64) mod 64) 0 @
     map (\<lambda>i. ucast (drop_bit (8 * i) (word_of_nat (8 * length m) :: 64 word))) [0..<8]"

definition le32 :: "8 word list \<Rightarrow> 32 word" where
  "le32 bs = foldr (\<lambda>b w. ucast b OR push_bit 8 w) bs 0"

fun chunks :: "nat \<Rightarrow> nat \<Rightarrow> 'a list \<Rightarrow> 'a list list" where
  "chunks 0 k xs = []"
| "chunks (Suc n) k xs = take k xs # chunks n k (drop k xs)"

definition md5_step ::
  "32 word list \<Rightarrow> 32 word \<times> 32 word \<times> 32 word \<times> 32 word \<Rightarrow> nat \<Rightarrow>
   32 word \<times> 32 word \<times> 32 word \<times> 32 word" where
  "md5_step M st i =
     (case st of (A, B, C, D) \<Rightarrow>
        let (F, g) =
              (if i < 16 then ((B AND C) OR (NOT B AND D), i)
               else if i < 32 then ((D AND B) OR (NOT D AND C), (5 * i + 1) mod 16)
               else if i < 48 then (B XOR C XOR D, (3 * i + 5) mod 16)
               else (C XOR (B OR NOT D), (7 * i) mod 16));
            F' = F + A + md5_K ! i + M ! g
        in (D, B + word_rotl (md5_s ! i) F', B, C))"

definition md5_block ::
  "32 word \<times> 32 word \<times> 32 word \<times> 32 word \<Rightarrow> 8 word list \<Rightarrow>
   32 word \<times> 32 word \<times> 32 word \<times> 32 word" where
  "md5_block st blk =
     (let M = map le32 (chunks 16 4 blk) in
      case (st, foldl (md5_step M) st [0..<64]) of
        ((a0, b0, c0, d0), (A, B, C, D)) \<Rightarrow> (a0 + A, b0 + B, c0 + C, d0 + D))"

definition hex_byte :: "8 word \<Rightarrow> string" where
  "hex_byte b = [hexdigit (unat b div 16), hexdigit (unat b mod 16)]"

definition bytes32 :: "32 word \<Rightarrow> 8 word list" where
  "bytes32 w = map (\<lambda>i. ucast (drop_bit (8 * i) w)) [0..<4]"

definition md5_hexdigest :: "8 word list \<Rightarrow> string" where
  "md5_hexdigest m =
     (let p = md5_pad m in
      case foldl md5_block (0x67452301, 0xefcdab89, 0x98badcfe, 0x10325476)
             (chunks (length p div 64) 64 p) of
        (a, b, c, d) \<Rightarrow> concat (map hex_byte (concat (map bytes32 [a, b, c, d]))))"

text \<open>\<open>str.encode()\<close>: UTF-8, for the code points below 256 that a \<open>char\<close> holds.\<close>

definition encode :: "string \<Rightarrow> 8 word list" where
  "encode s = concat (map (\<lambda>c. let n = (of_char c :: nat) in
                            if n < 128 then [word_of_nat n]
                            else [word_of_nat (192 + n div 64), word_of_nat (128 + n mod 64)]) s)"

text \<open>
  What the module takes from outside: the string each adapter ends up returning for a
  well-typed argument (the adapters catch their own network and search failures and
  return them as text), and the stack entries the interpreter prints for a raise inside
  a named function.
\<close>

record env =
  weather :: "string \<Rightarrow> string"
  knowledge_base :: "string \<Rightarrow> string"
  ip_info :: "string \<Rightarrow> string"
  stack :: "string \<Rightarrow> string list"

text \<open>
  Calling a one-parameter function \<open>fname(pname)\<close> as \<open>fname(**kw)\<close>: a keyword that
  is not the parameter raises, a missing parameter raises, otherwise the body runs.
\<close>

definition call_1 ::
  "env \<Rightarrow> string \<Rightarrow> string \<Rightarrow> (pyval \<Rightarrow> exc + pyval) \<Rightarrow> kwargs \<Rightarrow> exc + pyval" where
  "call_1 ev fname pname body kw =
     (case filter (\<lambda>k. k \<noteq> pname) (map fst kw) of
        k # ks \<Rightarrow> Inl (Exc ''TypeError''
                    (fname @ ''() got an unexpected keyword argument '' @
                     [CHR 0x27] @ k @ [CHR 0x27]) (stack ev ''dispatch_tool''))
      | [] \<Rightarrow>
          (case map_of kw pname of
             None \<Rightarrow> Inl (Exc ''TypeError''
                        (fname @ ''() missing 1 required positional argument: '' @
                         [CHR 0x27] @ pname @ [CHR 0x27]) (stack ev ''dispatch_tool''))
           | Some v \<Rightarrow> body v))"

definition metadata_1 :: "string \<Rightarrow> annotation" where
  "metadata_1 d = Annotated (Class ''str'') (PTuple [PStr d, PBool True]) []"

definition get_weather :: "env \<Rightarrow> pyval \<Rightarrow> exc + pyval" where
  "get_weather ev city_name =
     (if \<not> isinstance_str city_name
      then Inl (Exc ''TypeError'' ''City name must be a string'' (stack ev ''get_weather''))
      else Inr (PStr (weather ev (str_value city_name))))"

definition generate_md5 :: "env \<Rightarrow> pyval \<Rightarrow> exc + pyval" where
  "generate_md5 ev input_string =
     (if \<not> isinstance_str input_string
      then Inl (Exc ''TypeError'' ''Input string must be a string'' (stack ev ''generate_md5''))
      else Inr (PStr (md5_hexdigest (encode (str_value input_string)))))"

definition search_knowledge_base :: "env \<Rightarrow> pyval \<Rightarrow> exc + pyval" where
  "search_knowledge_base ev query_text =
     (if \<not> isinstance_str query_text
      then Inl (Exc ''TypeError'' ''Query text must be a string''
                  (stack ev ''search_knowledge_base''))
      else Inr (PStr (knowledge_base ev (str_value query_text))))"

definition query_ip :: "env \<Rightarrow> pyval \<Rightarrow> exc + pyval" where
  "query_ip ev ip_address =
     (if \<not> isinstance_str ip_address
      then Inl (Exc ''TypeError'' ''IP address must be a string'' (stack ev ''query_ip''))
      else Inr (PStr (ip_info ev (str_value ip_address))))"

definition get_weather_tool :: "env \<Rightarrow> func" where
  "get_weather_tool ev =
     \<lparr>name = ''get_weather'',
      getdoc = Some ''Get the current weather for `city_name`'',
      parameters = [(''city_name'', metadata_1 ''The name of the city to be queried'')],
      call = call_1 ev ''get_weather'' ''city_name'' (get_weather ev)\<rparr>"

definition generate_md5_tool :: "env \<Rightarrow> func" where
  "generate_md5_tool ev =
     \<lparr>name = ''generate_md5'',
      getdoc = Some ''Generate MD5 hash of the provided string.'',
      parameters = [(''input_string'', metadata_1 ''The input string to hash'')],
      call = call_1 ev ''generate_md5'' ''input_string'' (generate_md5 ev)\<rparr>"

definition search_knowledge_base_tool :: "env \<Rightarrow> func" where
  "search_knowledge_base_tool ev =
     \<lparr>name = ''search_knowledge_base'',
      getdoc = Some
        ''Search the knowledge base for documents similar to the provided query text.'',
      parameters = [(''query_text'',
                     metadata_1 ''The text to query in the net security knowledge base'')],
      call = call_1 ev ''search_knowledge_base'' ''query_text'' (search_knowledge_base ev)\<rparr>"

definition query_ip_tool :: "env \<Rightarrow> func" where
  "query_ip_tool ev =
     \<lparr>name = ''query_ip'',
      getdoc = Some ''Query information about a given IP address.'',
      parameters = [(''ip_address'', metadata_1 ''The IP address to query'')],
      call = call_1 ev ''query_ip'' ''ip_address'' (query_ip ev)\<rparr>"

text \<open>The state once the module is loaded: the four decorators have run, in order.\<close>

definition loaded :: "env \<Rightarrow> state" where
  "loaded ev =
     foldl (\<lambda>s f. snd (register_tool f s)) init
       [get_weather_tool ev, generate_md5_tool ev, search_knowledge_base_tool ev,
        query_ip_tool ev]"



section \<open>Properties\<close>

text \<open>An environment whose services answer with the empty string, for examples.\<close>

definition quiet :: env where
  "quiet = \<lparr>weather = (\<lambda>c. []), knowledge_base = (\<lambda>q. []), ip_info = (\<lambda>a. []),
            stack = (\<lambda>f. [])\<rparr>"

text \<open>
  A malformed annotation: none at all, a bare type without metadata, or metadata that is
  not a pair of a string and a bool.
\<close>

fun malformed :: "annotation \<Rightarrow> bool" where
  "malformed Empty = True"
| "malformed (Bare t) = True"
| "malformed (Annotated t m ms) =
     (\<not> isinstance_tuple m \<or> length (tuple_items m) \<noteq> 2 \<or>
      \<not> isinstance_str (tuple_items m ! 0) \<or> \<not> isinstance_bool (tuple_items m ! 1))"

text \<open>
  A declaration that \<open>register_tool\<close> accepts: a docstring and no malformed parameter.
\<close>

definition valid :: "func \<Rightarrow> bool" where
  "valid f = (getdoc f \<noteq> None \<and> list_all (\<lambda>p. \<not> malformed (snd p)) (parameters f))"

text \<open>
  What a declaration is expected to leave in the catalog: per parameter its name, the
  description and the required flag of its metadata, and the type tag the source computes;
  per tool its name, its stripped docstring and its parameters in declaration order.
\<close>

definition description_of :: "annotation \<Rightarrow> string" where
  "description_of ann = str_value (tuple_items (get_args_1 ann) ! 0)"

definition required_of :: "annotation \<Rightarrow> bool" where
  "required_of ann = bool_value (tuple_items (get_args_1 ann) ! 1)"

definition param_dict :: "string \<times> annotation \<Rightarrow> obj" where
  "param_dict p = Dict [(''name'', VStr (fst p)),
                        (''description'', VStr (description_of (snd p))),
                        (''type'', VStr ''Annotated''),
                        (''required'', VBool (required_of (snd p)))]"

definition param_tree :: "string \<times> annotation \<Rightarrow> tree" where
  "param_tree p = TDict [(''name'', TStr (fst p)),
                         (''description'', TStr (description_of (snd p))),
                         (''type'', TStr ''Annotated''),
                         (''required'', TBool (required_of (snd p)))]"

definition tool_tree :: "func \<Rightarrow> tree" where
  "tool_tree f = TDict [(''name'', TStr (name f)),
                        (''description'', TStr (strip (the (getdoc f)))),
                        (''params'', TList (map param_tree (parameters f)))]"

text \<open>
  The contents of a structure of a state, and the addresses of its containers, read with
  a depth that suffices for any structure without a cycle.
\<close>

definition catalog :: "state \<Rightarrow> val \<Rightarrow> tree option" where
  "catalog s v = map_option fst (read (Suc (length (heap s))) (heap s) v)"

definition addresses :: "state \<Rightarrow> val \<Rightarrow> nat list" where
  "addresses s v = (case read (Suc (length (heap s))) (heap s) v of
                      None \<Rightarrow> [] | Some (t, as) \<Rightarrow> as)"

text \<open>The two tables have the same keys.\<close>

definition keys_agree :: "state \<Rightarrow> bool" where
  "keys_agree s =
     (TOOL_DESCRIPTIONS s < length (heap s) \<and>
      (case heap s ! TOOL_DESCRIPTIONS s of
         Dict kvs \<Rightarrow> set (map fst kvs) = set (map fst (TOOL_HOOKS s))
       | List xs \<Rightarrow> False))"

text \<open>
  The registry is well formed: the tables have the same keys, no key occurs twice, and
  the structure under \<open>_TOOL_DESCRIPTIONS\<close> is a tree, no container being reached twice.
\<close>

definition well_formed :: "state \<Rightarrow> bool" where
  "well_formed s =
     (keys_agree s \<and>
      (case heap s ! TOOL_DESCRIPTIONS s of
         Dict kvs \<Rightarrow> distinct (map fst kvs) | List xs \<Rightarrow> False) \<and>
      (case read (Suc (length (heap s))) (heap s) (VRef (TOOL_DESCRIPTIONS s)) of
         None \<Rightarrow> False | Some (t, as) \<Rightarrow> distinct as))"

text \<open>A second declaration under the name \<open>generate_md5\<close>, for examples.\<close>

definition generate_md5_v0 :: func where
  "generate_md5_v0 =
     \<lparr>name = ''generate_md5'', getdoc = Some ''An earlier tool of the same name.'',
      parameters = [(''text'', metadata_1 ''The text''),
                    (''salt'', Annotated (Class ''str'') (PTuple [PStr ''A salt'', PBool False]) [])],
      call = (\<lambda>kw. Inr PNone)\<rparr>"

section \<open>Reading and copying the store\<close>

lemma read_fuel:
  "read n h v = Some r \<Longrightarrow> n \<le> n' \<Longrightarrow> read n' h v = Some r"
  "read_items n h vs = Some rs \<Longrightarrow> n \<le> n' \<Longrightarrow> read_items n' h vs = Some rs"
proof (induction n h v and n h vs arbitrary: r n' and rs n' rule: read_read_items.induct)
  case (4 n h a)
  from "4.prems"(2) obtain k where n': "n' = Suc k" and k: "n \<le> k"
    by (cases n') auto
  from "4.prems"(1) have a: "\<not> length h \<le> a" by (auto split: if_splits)
  with "4.prems"(1) obtain ts as where
    1: "read_items n h (children (h ! a)) = Some (ts, as)" and r: "r = (build (h ! a) ts, a # as)"
    by (auto split: option.splits)
  from "4.IH"[OF a 1 k] show ?case using n' a r by simp
next
  case (6 n h v vs)
  from "6.prems"(1) obtain t as ts bs where
    1: "read n h v = Some (t, as)" and 2: "read_items n h vs = Some (ts, bs)"
    and rs: "rs = (t # ts, as @ bs)"
    by (auto split: option.splits)
  from "6.IH"(1)[OF 1 "6.prems"(2)] "6.IH"(2)[OF 1 refl 2 "6.prems"(2)] rs
  show ?case by simp
qed auto

lemma read_local:
  "read n h v = Some (t, as) \<Longrightarrow> \<forall>a \<in> set as. a < length h' \<and> h' ! a = h ! a \<Longrightarrow>
   read n h' v = Some (t, as)"
  "read_items n h vs = Some (ts, as) \<Longrightarrow> \<forall>a \<in> set as. a < length h' \<and> h' ! a = h ! a \<Longrightarrow>
   read_items n h' vs = Some (ts, as)"
proof (induction n h v and n h vs arbitrary: t as and ts as rule: read_read_items.induct)
  case (4 n h a)
  from "4.prems"(1) have a: "\<not> length h \<le> a" by (auto split: if_splits)
  with "4.prems"(1) obtain ts bs where
    1: "read_items n h (children (h ! a)) = Some (ts, bs)" and t: "t = build (h ! a) ts"
    and as: "as = a # bs"
    by (auto split: option.splits)
  from "4.prems"(2) as have ha: "a < length h'" "h' ! a = h ! a" and
    bs: "\<forall>a \<in> set bs. a < length h' \<and> h' ! a = h ! a" by auto
  from "4.IH"[OF a 1 bs] show ?case using ha t as by simp
next
  case (6 n h v vs)
  from "6.prems"(1) obtain t bs ts' cs where
    1: "read n h v = Some (t, bs)" and 2: "read_items n h vs = Some (ts', cs)"
    and ts: "ts = t # ts'" and as: "as = bs @ cs"
    by (auto split: option.splits)
  from "6.prems"(2) as have b: "\<forall>a \<in> set bs. a < length h' \<and> h' ! a = h ! a"
    and c: "\<forall>a \<in> set cs. a < length h' \<and> h' ! a = h ! a" by auto
  from "6.IH"(1)[OF 1 b] "6.IH"(2)[OF 1 refl 2 c] ts as
  show ?case by simp
qed auto

lemma read_bound:
  "read n h v = Some (t, as) \<Longrightarrow> \<forall>a \<in> set as. a < length h"
  "read_items n h vs = Some (ts, as) \<Longrightarrow> \<forall>a \<in> set as. a < length h"
proof (induction n h v and n h vs arbitrary: t as and ts as rule: read_read_items.induct)
  case (4 n h a)
  from "4.prems"(1) have a: "\<not> length h \<le> a" by (auto split: if_splits)
  with "4.prems"(1) obtain ts bs where
    1: "read_items n h (children (h ! a)) = Some (ts, bs)" and as: "as = a # bs"
    by (auto split: option.splits)
  from "4.IH"[OF a 1] a as show ?case by auto
next
  case (6 n h v vs)
  from "6.prems"(1) obtain t bs ts' cs where
    1: "read n h v = Some (t, bs)" and 2: "read_items n h vs = Some (ts', cs)"
    and as: "as = bs @ cs"
    by (auto split: option.splits)
  from "6.IH"(1)[OF 1] "6.IH"(2)[OF 1 refl 2] as
  show ?case by auto
qed auto

lemma read_items_length:
  "read_items n h vs = Some (ts, as) \<Longrightarrow> length ts = length vs"
  by (induction vs arbitrary: ts as) (auto split: option.splits)

lemma children_rebuild: "length vs = length (children ob) \<Longrightarrow> children (rebuild ob vs) = vs"
  by (cases ob) simp_all

lemma build_rebuild:
  "length vs = length (children ob) \<Longrightarrow> build (rebuild ob vs) ts = build ob ts"
  by (cases ob) simp_all

lemma deepcopy_tree:
  "read k h v = Some (t, as) \<Longrightarrow> distinct as \<Longrightarrow> set as \<inter> fst ` set m = {} \<Longrightarrow>
   k \<le> n \<Longrightarrow> \<forall>a \<in> set as. a < length H \<and> H ! a = h ! a \<Longrightarrow>
   \<exists>v' ext m' as'. deepcopy n v H m = Some (v', H @ ext, m') \<and>
      read k (H @ ext) v' = Some (t, as') \<and> distinct as' \<and>
      set as' \<subseteq> {length H ..< length H + length ext} \<and>
      fst ` set m' = fst ` set m \<union> set as"
  "read_items k h vs = Some (ts, as) \<Longrightarrow> distinct as \<Longrightarrow> set as \<inter> fst ` set m = {} \<Longrightarrow>
   k \<le> n \<Longrightarrow> \<forall>a \<in> set as. a < length H \<and> H ! a = h ! a \<Longrightarrow>
   \<exists>vs' ext m' as'. deepcopy_items n vs H m = Some (vs', H @ ext, m') \<and>
      length vs' = length vs \<and>
      read_items k (H @ ext) vs' = Some (ts, as') \<and> distinct as' \<and>
      set as' \<subseteq> {length H ..< length H + length ext} \<and>
      fst ` set m' = fst ` set m \<union> set as"
proof (induction k h v and k h vs arbitrary: t as m n H and ts as m n H
       rule: read_read_items.induct)
  case (1 k h x)
  then show ?case by (intro exI[of _ "VStr x"] exI[of _ "[]"] exI[of _ m]) auto
next
  case (2 k h b)
  then show ?case by (intro exI[of _ "VBool b"] exI[of _ "[]"] exI[of _ m]) auto
next
  case (3 h a)
  then show ?case by simp
next
  case (4 k h a)
  from "4.prems"(1) have a: "\<not> length h \<le> a" by (auto split: if_splits)
  with "4.prems"(1) obtain ts bs where
    1: "read_items k h (children (h ! a)) = Some (ts, bs)" and t: "t = build (h ! a) ts"
    and as: "as = a # bs"
    by (auto split: option.splits)
  from "4.prems"(4) obtain n' where n: "n = Suc n'" and n': "k \<le> n'" by (cases n) auto
  from "4.prems"(5) as have aH: "a < length H" "H ! a = h ! a" by auto
  from "4.prems"(3) as have memo: "map_of m a = None"
    by (auto simp: map_of_eq_None_iff)
  let ?ob = "h ! a"
  let ?y = "length H"
  let ?H1 = "H @ [rebuild ?ob []]"
  have d: "distinct bs" using "4.prems"(2) as by simp
  have m1: "set bs \<inter> fst ` set ((a, ?y) # m) = {}"
    using "4.prems"(2,3) as by auto
  have loc: "\<forall>b \<in> set bs. b < length ?H1 \<and> ?H1 ! b = h ! b"
    using "4.prems"(5) as by (auto simp: nth_append)
  from "4.IH"[OF a 1 d m1 n' loc] obtain vs ext m' bs' where
    dc: "deepcopy_items n' (children ?ob) ?H1 ((a, ?y) # m) = Some (vs, ?H1 @ ext, m')" and
    len: "length vs = length (children ?ob)" and
    rd: "read_items k (?H1 @ ext) vs = Some (ts, bs')" and
    dbs': "distinct bs'" and
    sub: "set bs' \<subseteq> {length ?H1 ..< length ?H1 + length ext}" and
    keys: "fst ` set m' = fst ` set ((a, ?y) # m) \<union> set bs"
    by blast
  let ?ext = "rebuild ?ob vs # ext"
  have upd: "(?H1 @ ext)[?y := rebuild ?ob vs] = H @ ?ext"
    by (simp add: list_update_append)
  have res: "deepcopy n (VRef a) H m = Some (VRef ?y, H @ ?ext, m')"
    using n memo aH dc upd by (simp add: alloc_def)
  have loc2: "\<forall>b \<in> set bs'. b < length (H @ ?ext) \<and> (H @ ?ext) ! b = (?H1 @ ext) ! b"
    using sub by (auto simp: nth_append)
  from read_local(2)[OF rd loc2]
  have rd2: "read_items k (H @ ?ext) vs = Some (ts, bs')" .
  have "read (Suc k) (H @ ?ext) (VRef ?y) = Some (t, ?y # bs')"
    using rd2 len t by (simp add: children_rebuild build_rebuild)
  moreover have "distinct (?y # bs')" using dbs' sub by auto
  moreover have "set (?y # bs') \<subseteq> {length H ..< length H + length ?ext}" using sub by auto
  moreover have "fst ` set m' = fst ` set m \<union> set as" using keys as by auto
  ultimately show ?case using res by blast
next
  case (5 k h)
  then show ?case by (intro exI[of _ "[]"] exI[of _ "[]"] exI[of _ m]) auto
next
  case (6 k h v vs)
  from "6.prems"(1) obtain t bs ts' cs where
    1: "read k h v = Some (t, bs)" and 2: "read_items k h vs = Some (ts', cs)"
    and ts: "ts = t # ts'" and as: "as = bs @ cs"
    by (auto split: option.splits)
  have db: "distinct bs" and dcs: "distinct cs" and disj: "set bs \<inter> set cs = {}"
    using "6.prems"(2) as by auto
  have mb: "set bs \<inter> fst ` set m = {}" using "6.prems"(3) as by auto
  have lb: "\<forall>a \<in> set bs. a < length H \<and> H ! a = h ! a" using "6.prems"(5) as by auto
  from "6.IH"(1)[OF 1 db mb "6.prems"(4) lb] obtain v' e1 m1 bs' where
    dc1: "deepcopy n v H m = Some (v', H @ e1, m1)" and
    rd1: "read k (H @ e1) v' = Some (t, bs')" and
    dbs': "distinct bs'" and
    sub1: "set bs' \<subseteq> {length H ..< length H + length e1}" and
    keys1: "fst ` set m1 = fst ` set m \<union> set bs"
    by blast
  have mc: "set cs \<inter> fst ` set m1 = {}" using "6.prems"(3) as keys1 disj by auto
  have lc: "\<forall>a \<in> set cs. a < length (H @ e1) \<and> (H @ e1) ! a = h ! a"
  proof
    fix a assume "a \<in> set cs"
    with "6.prems"(5) as have "a < length H" "H ! a = h ! a" by auto
    then show "a < length (H @ e1) \<and> (H @ e1) ! a = h ! a" by (simp add: nth_append)
  qed
  from "6.IH"(2)[OF 1 refl 2 dcs mc "6.prems"(4) lc] obtain vs' e2 m2 cs' where
    dc2: "deepcopy_items n vs (H @ e1) m1 = Some (vs', (H @ e1) @ e2, m2)" and
    len: "length vs' = length vs" and
    rd2: "read_items k ((H @ e1) @ e2) vs' = Some (ts', cs')" and
    dcs': "distinct cs'" and
    sub2: "set cs' \<subseteq> {length (H @ e1) ..< length (H @ e1) + length e2}" and
    keys2: "fst ` set m2 = fst ` set m1 \<union> set cs"
    by blast
  have "\<forall>a \<in> set bs'. a < length (H @ e1 @ e2) \<and> (H @ e1 @ e2) ! a = (H @ e1) ! a"
    using sub1 by (auto simp: nth_append)
  from read_local(1)[OF rd1 this] have rd1': "read k (H @ e1 @ e2) v' = Some (t, bs')" .
  have "deepcopy_items n (v # vs) H m = Some (v' # vs', H @ (e1 @ e2), m2)"
    using dc1 dc2 by simp
  moreover have "read_items k (H @ (e1 @ e2)) (v' # vs') = Some (ts, bs' @ cs')"
    using rd1' rd2 ts by simp
  moreover have "distinct (bs' @ cs')"
  proof -
    have "x < length H + length e1" if "x \<in> set bs'" for x using sub1 that by auto
    moreover have "length H + length e1 \<le> x" if "x \<in> set cs'" for x using sub2 that by auto
    ultimately have "set bs' \<inter> set cs' = {}" by fastforce
    with dbs' dcs' show ?thesis by simp
  qed
  moreover have "set (bs' @ cs') \<subseteq> {length H ..< length H + length (e1 @ e2)}"
  proof -
    have "length H \<le> x \<and> x < length H + length (e1 @ e2)" if "x \<in> set bs'" for x
      using sub1 that by auto
    moreover have "length H \<le> x \<and> x < length H + length (e1 @ e2)" if "x \<in> set cs'" for x
      using sub2 that by auto
    ultimately show ?thesis by auto
  qed
  moreover have "fst ` set m2 = fst ` set m \<union> set as" using keys1 keys2 as by auto
  ultimately show ?case using len by (intro exI[of _ "v' # vs'"] exI[of _ "e1 @ e2"] exI[of _ m2] exI[of _ "bs' @ cs'"]) simp
qed

lemma deepcopy_extends:
  "deepcopy n v h m = Some (v', h', m') \<Longrightarrow> \<exists>ext. h' = h @ ext"
  "deepcopy_items n vs h m = Some (vs', h', m') \<Longrightarrow> \<exists>ext. h' = h @ ext"
proof (induction n v h m and n vs h m arbitrary: v' h' m' and vs' h' m'
       rule: deepcopy_deepcopy_items.induct)
  case (4 n a h m)
  show ?case
  proof (cases "map_of m a")
    case (Some y)
    with 4 show ?thesis by simp
  next
    case None
    with "4.prems" have a: "\<not> length h \<le> a" by (auto split: if_splits)
    from "4.prems" None a obtain vs h2 where
      d: "deepcopy_items n (children (h ! a)) (h @ [rebuild (h ! a) []]) ((a, length h) # m)
            = Some (vs, h2, m')"
      and h': "h' = h2[length h := rebuild (h ! a) vs]"
      by (auto simp: alloc_def split: option.splits)
    from "4.IH"[unfolded alloc_def, OF None a refl refl d] obtain ext where "h2 = (h @ [rebuild (h ! a) []]) @ ext"
      by (auto simp: alloc_def)
    with h' have "h' = h @ ([rebuild (h ! a) vs] @ ext)"
      by (simp add: list_update_append)
    then show ?thesis by blast
  qed
next
  case (6 n v vs h m)
  from "6.prems" obtain w h1 m1 ws where
    1: "deepcopy n v h m = Some (w, h1, m1)" and
    2: "deepcopy_items n vs h1 m1 = Some (ws, h', m')"
    by (auto split: option.splits)
  from "6.IH"(1)[OF 1] obtain e1 where "h1 = h @ e1" by blast
  moreover from "6.IH"(2)[OF 1 refl refl 2] obtain e2 where "h' = h1 @ e2" by auto
  ultimately show ?case by auto
qed auto

lemma get_tools_extends:
  assumes "get_tools s = Some (v, s')"
  shows "\<exists>ext. s' = s\<lparr>heap := heap s @ ext\<rparr>"
  using assms deepcopy_extends(1)[of "Suc (length (heap s))" "VRef (TOOL_DESCRIPTIONS s)" "heap s" "[]"]
  by (auto simp: get_tools_def split: option.splits)

section \<open>Registration\<close>

lemma param_entry_malformed:
  "malformed ann \<Longrightarrow> \<exists>m. param_entry pname ann = Inl (TypeError m)"
  by (cases ann) (auto simp: param_entry_def Let_def)

lemma param_entry_Inl: "param_entry pname ann = Inl e \<Longrightarrow> \<exists>m. e = TypeError m"
  by (auto simp: param_entry_def Let_def split: if_splits)

lemma params_loop_malformed:
  "(pname, ann) \<in> set ps \<Longrightarrow> malformed ann \<Longrightarrow> \<exists>m. params_loop ps h tp = Inl (TypeError m)"
proof (induction ps arbitrary: h)
  case Nil
  then show ?case by simp
next
  case (Cons p ps)
  obtain q b where p: "p = (q, b)" by (cases p)
  show ?case
  proof (cases "param_entry q b")
    case (Inl e)
    then show ?thesis using p param_entry_Inl[OF Inl] by auto
  next
    case (Inr d)
    with Cons.prems p have "(pname, ann) \<in> set ps"
      using param_entry_malformed[of ann pname] by auto
    from Cons.IH[OF this Cons.prems(2)] show ?thesis
      using p Inr by (simp add: alloc_def)
  qed
qed

lemma register_tool_invalid:
  assumes "\<not> valid f"
  shows "\<exists>e. register_tool f s = (Inl e, s)"
proof (cases "getdoc f")
  case None
  then show ?thesis by (simp add: register_tool_def)
next
  case (Some doc)
  with assms have "\<not> list_all (\<lambda>p. \<not> malformed (snd p)) (parameters f)"
    by (simp add: valid_def)
  then obtain pname ann where "(pname, ann) \<in> set (parameters f)" "malformed ann"
    by (auto simp: list_all_iff)
  from params_loop_malformed[OF this]
  obtain m where "params_loop (parameters f) (heap s @ [List []]) (length (heap s)) = Inl (TypeError m)"
    by blast
  with Some show ?thesis by (simp add: register_tool_def alloc_def)
qed

lemma param_entry_wellformed:
  "\<not> malformed (snd p) \<Longrightarrow> param_entry (fst p) (snd p) = Inr (param_dict p)"
  by (cases "snd p")
     (auto simp: param_entry_def Let_def param_dict_def description_of_def required_of_def)

lemma params_loop_ok:
  "list_all (\<lambda>p. \<not> malformed (snd p)) ps \<Longrightarrow> tp < length h \<Longrightarrow> h ! tp = List xs \<Longrightarrow>
   params_loop ps h tp =
     Inr ((h @ map param_dict ps)
            [tp := List (xs @ map VRef [length h ..< length h + length ps])])"
proof (induction ps arbitrary: h xs)
  case Nil
  from Nil.prems(3) have "h[tp := List xs] = h" by (metis list_update_id)
  then show ?case by simp
next
  case (Cons p ps)
  obtain q b where p: "p = (q, b)" by (cases p)
  from Cons.prems(1) p have e: "param_entry q b = Inr (param_dict p)"
    using param_entry_wellformed[of p] by simp
  let ?h1 = "(h @ [param_dict p])[tp := List (xs @ [VRef (length h)])]"
  have la: "list_append (h @ [param_dict p]) tp (VRef (length h)) = ?h1"
    using Cons.prems(2,3) by (simp add: list_append_def nth_append)
  have 1: "tp < length ?h1" using Cons.prems(2) by simp
  have 2: "?h1 ! tp = List (xs @ [VRef (length h)])" using Cons.prems(2) by simp
  have 3: "list_all (\<lambda>p. \<not> malformed (snd p)) ps" using Cons.prems(1) by simp
  have u: "[length h ..< length h + Suc (length ps)] =
           length h # [Suc (length h) ..< Suc (length h) + length ps]"
    by (simp add: upt_rec)
  have "(?h1 @ map param_dict ps)
          [tp := List ((xs @ [VRef (length h)]) @
                       map VRef [length ?h1 ..< length ?h1 + length ps])] =
        (h @ map param_dict (p # ps))
          [tp := List (xs @ map VRef [length h ..< length h + length (p # ps)])]"
    using Cons.prems(2) u by (simp add: list_update_append1)
  with Cons.IH[OF 3 1 2] show ?case
    using p e la by (simp add: alloc_def)
qed

lemma register_tool_ok:
  assumes "valid f" and "TOOL_DESCRIPTIONS s < length (heap s)"
    and "heap s ! TOOL_DESCRIPTIONS s = Dict kvs"
  shows "register_tool f s =
     (Inr f,
      s\<lparr>heap := (heap s @ [List (map VRef [Suc (length (heap s)) ..<
                                            Suc (length (heap s)) + length (parameters f)])] @
                  map param_dict (parameters f) @
                  [Dict [(''name'', VStr (name f)),
                         (''description'', VStr (strip (the (getdoc f)))),
                         (''params'', VRef (length (heap s)))]])
                 [TOOL_DESCRIPTIONS s :=
                    Dict (AList.update (name f)
                            (VRef (Suc (length (heap s)) + length (parameters f))) kvs)],
        TOOL_HOOKS := AList.update (name f) f (TOOL_HOOKS s)\<rparr>)"
proof -
  let ?h = "heap s" and ?ps = "parameters f"
  from assms(1) obtain doc where doc: "getdoc f = Some doc" by (auto simp: valid_def)
  from assms(1) have ok: "list_all (\<lambda>p. \<not> malformed (snd p)) ?ps" by (simp add: valid_def)
  have pl: "params_loop ?ps (?h @ [List []]) (length ?h) =
     Inr (((?h @ [List []]) @ map param_dict ?ps)
            [length ?h := List ([] @ map VRef [length (?h @ [List []]) ..<
                                            length (?h @ [List []]) + length ?ps])])"
    by (rule params_loop_ok[OF ok]) simp_all
  have h2: "((?h @ [List []]) @ map param_dict ?ps)
            [length ?h := List ([] @ map VRef [length (?h @ [List []]) ..<
                                            length (?h @ [List []]) + length ?ps])] =
        ?h @ [List (map VRef [Suc (length ?h) ..< Suc (length ?h) + length ?ps])] @
        map param_dict ?ps" (is "?l = ?h2")
    by (simp add: list_update_append)
  let ?td = "Dict [(''name'', VStr (name f)), (''description'', VStr (strip doc)),
                   (''params'', VRef (length ?h))]"
  have r: "register_tool f s =
     (Inr f, s\<lparr>heap := dict_setitem (?h2 @ [?td]) (TOOL_DESCRIPTIONS s) (name f)
                          (VRef (length ?h2)),
              TOOL_HOOKS := AList.update (name f) f (TOOL_HOOKS s)\<rparr>)"
    unfolding register_tool_def Let_def alloc_def using doc pl[unfolded h2] by simp
  have d: "(?h2 @ [?td]) ! TOOL_DESCRIPTIONS s = Dict kvs"
    using assms(2,3) by (simp add: nth_append)
  have "dict_setitem (?h2 @ [?td]) (TOOL_DESCRIPTIONS s) (name f) (VRef (length ?h2)) =
        (?h2 @ [?td])[TOOL_DESCRIPTIONS s := Dict (AList.update (name f)
                            (VRef (Suc (length ?h) + length ?ps)) kvs)]"
    unfolding dict_setitem_def d by simp
  with r doc show ?thesis by simp
qed

lemma read_param_dicts:
  "\<forall>i < length ps. b + i < length h \<and> h ! (b + i) = param_dict (ps ! i) \<Longrightarrow>
   read_items (Suc n) h (map VRef [b ..< b + length ps]) =
     Some (map param_tree ps, [b ..< b + length ps])"
proof (induction ps arbitrary: b)
  case Nil
  then show ?case by simp
next
  case (Cons p ps)
  from Cons.prems have b: "b < length h" "h ! b = param_dict p" by force+
  have "\<forall>i < length ps. Suc b + i < length h \<and> h ! (Suc b + i) = param_dict (ps ! i)"
  proof (intro allI impI)
    fix i assume "i < length ps"
    then have "Suc i < length (p # ps)" by simp
    from Cons.prems[rule_format, OF this]
    show "Suc b + i < length h \<and> h ! (Suc b + i) = param_dict (ps ! i)" by simp
  qed
  from Cons.IH[OF this]
  have r: "read_items (Suc n) h (map VRef [Suc b ..< Suc b + length ps]) =
             Some (map param_tree ps, [Suc b ..< Suc b + length ps])" .
  have u: "[b ..< b + length (p # ps)] = b # [Suc b ..< Suc b + length ps]"
    by (simp add: upt_rec)
  have "read (Suc n) h (VRef b) = Some (param_tree p, [b])"
    using b by (simp add: param_dict_def param_tree_def)
  with r show ?case unfolding u by simp
qed

lemma read_tool_entry:
  assumes "tp < length h" and "h ! tp = List (map VRef [b ..< b + length ps])"
    and "\<forall>i < length ps. b + i < length h \<and> h ! (b + i) = param_dict (ps ! i)"
    and "td < length h"
    and "h ! td = Dict [(''name'', VStr nm), (''description'', VStr ds), (''params'', VRef tp)]"
  shows "read (Suc (Suc (Suc n))) h (VRef td) =
           Some (TDict [(''name'', TStr nm), (''description'', TStr ds),
                        (''params'', TList (map param_tree ps))],
                 td # tp # [b ..< b + length ps])"
proof -
  have "read (Suc (Suc n)) h (VRef tp) = Some (TList (map param_tree ps), tp # [b ..< b + length ps])"
    using assms(1,2) read_param_dicts[OF assms(3), of n] by simp
  then show ?thesis using assms(4,5) by simp
qed

lemma read_items_update:
  assumes "read_items n h (map snd kvs) = Some (ts, as)"
    and "read n h' w = Some (tw, aw)"
    and "\<forall>a \<in> set as. a < length h' \<and> h' ! a = h ! a"
  shows "\<exists>as'. read_items n h' (map snd (AList.update k w kvs)) =
                 Some (map snd (AList.update k tw (zip (map fst kvs) ts)), as') \<and>
               set as' \<subseteq> set as \<union> set aw \<and>
               (distinct as \<longrightarrow> distinct aw \<longrightarrow> set as \<inter> set aw = {} \<longrightarrow> distinct as')"
  using assms(1,3)
proof (induction kvs arbitrary: ts as)
  case Nil
  then show ?case using assms(2) by auto
next
  case (Cons p kvs)
  from Cons.prems(1) obtain t bs ts' cs where
    1: "read n h (snd p) = Some (t, bs)" and 2: "read_items n h (map snd kvs) = Some (ts', cs)"
    and ts: "ts = t # ts'" and as: "as = bs @ cs"
    by (auto split: option.splits)
  from Cons.prems(2) as have lb: "\<forall>a \<in> set bs. a < length h' \<and> h' ! a = h ! a"
    and lc: "\<forall>a \<in> set cs. a < length h' \<and> h' ! a = h ! a" by auto
  show ?case
  proof (cases "fst p = k")
    case True
    from read_local(2)[OF 2 lc] have "read_items n h' (map snd kvs) = Some (ts', cs)" .
    then have "read_items n h' (map snd (AList.update k w (p # kvs))) =
                 Some (map snd (AList.update k tw (zip (map fst (p # kvs)) ts)), aw @ cs)"
      using True assms(2) ts read_items_length[OF 2] by (simp add: zip_map_fst_snd)
    moreover have "set (aw @ cs) \<subseteq> set as \<union> set aw" using as by auto
    moreover have "distinct (aw @ cs)" if "distinct as" "distinct aw" "set as \<inter> set aw = {}"
      using that as by auto
    ultimately show ?thesis by blast
  next
    case False
    from read_local(1)[OF 1 lb] have r1: "read n h' (snd p) = Some (t, bs)" .
    from Cons.IH[OF 2 lc] obtain cs' where
      r2: "read_items n h' (map snd (AList.update k w kvs)) =
             Some (map snd (AList.update k tw (zip (map fst kvs) ts')), cs')"
      and sub: "set cs' \<subseteq> set cs \<union> set aw"
      and d: "distinct cs \<longrightarrow> distinct aw \<longrightarrow> set cs \<inter> set aw = {} \<longrightarrow> distinct cs'"
      by blast
    have "read_items n h' (map snd (AList.update k w (p # kvs))) =
                 Some (map snd (AList.update k tw (zip (map fst (p # kvs)) ts)), bs @ cs')"
      using False r1 r2 ts by simp
    moreover have "set (bs @ cs') \<subseteq> set as \<union> set aw" using as sub by auto
    moreover have "distinct (bs @ cs')" if "distinct as" "distinct aw" "set as \<inter> set aw = {}"
    proof -
      from that as have "distinct cs'" using d by auto
      moreover from that as sub have "set bs \<inter> set cs' = {}" by auto
      ultimately show ?thesis using that as by simp
    qed
    ultimately show ?thesis by blast
  qed
qed

lemma update_tree_keys:
  "length ts = length kvs \<Longrightarrow>
   zip (map fst (AList.update k w kvs)) (map snd (AList.update k tw (zip (map fst kvs) ts))) =
   AList.update k tw (zip (map fst kvs) ts)"
proof -
  assume l: "length ts = length kvs"
  have "map fst (AList.update k w kvs) = map fst (AList.update k tw (zip (map fst kvs) ts))"
    using l by (simp add: update_keys)
  then show ?thesis by (simp add: zip_map_fst_snd)
qed

lemma well_formed_D:
  assumes "well_formed s"
  obtains kvs ts as where
    "TOOL_DESCRIPTIONS s < length (heap s)"
    "heap s ! TOOL_DESCRIPTIONS s = Dict kvs"
    "distinct (map fst kvs)"
    "set (map fst kvs) = set (map fst (TOOL_HOOKS s))"
    "read_items (length (heap s)) (heap s) (map snd kvs) = Some (ts, as)"
    "read (Suc (length (heap s))) (heap s) (VRef (TOOL_DESCRIPTIONS s)) =
       Some (TDict (zip (map fst kvs) ts), TOOL_DESCRIPTIONS s # as)"
    "distinct (TOOL_DESCRIPTIONS s # as)"
proof -
  from assms have d: "TOOL_DESCRIPTIONS s < length (heap s)"
    by (simp add: well_formed_def keys_agree_def)
  from assms obtain kvs where kvs: "heap s ! TOOL_DESCRIPTIONS s = Dict kvs"
    and dk: "distinct (map fst kvs)" and ka: "set (map fst kvs) = set (map fst (TOOL_HOOKS s))"
    by (cases "heap s ! TOOL_DESCRIPTIONS s") (auto simp: well_formed_def keys_agree_def)
  from assms obtain t bs where
    r: "read (Suc (length (heap s))) (heap s) (VRef (TOOL_DESCRIPTIONS s)) = Some (t, bs)"
    and db: "distinct bs"
    by (auto simp: well_formed_def split: option.splits)
  from r d kvs obtain ts as where
    ri: "read_items (length (heap s)) (heap s) (map snd kvs) = Some (ts, as)"
    and t: "t = TDict (zip (map fst kvs) ts)" and bs: "bs = TOOL_DESCRIPTIONS s # as"
    by (auto split: option.splits)
  show thesis using that[OF d kvs dk ka ri] r db t bs by simp
qed

lemma register_tool_catalog:
  assumes "well_formed s" and "valid f"
  shows "\<exists>s' kts. register_tool f s = (Inr f, s') \<and> well_formed s' \<and>
           TOOL_DESCRIPTIONS s' = TOOL_DESCRIPTIONS s \<and>
           TOOL_HOOKS s' = AList.update (name f) f (TOOL_HOOKS s) \<and>
           catalog s (VRef (TOOL_DESCRIPTIONS s)) = Some (TDict kts) \<and>
           catalog s' (VRef (TOOL_DESCRIPTIONS s)) =
             Some (TDict (AList.update (name f) (tool_tree f) kts))"
proof -
  let ?d = "TOOL_DESCRIPTIONS s" and ?h = "heap s" and ?ps = "parameters f"
  let ?L = "length ?h" and ?k = "length ?ps"
  from well_formed_D[OF assms(1)] obtain kvs ts as where
    d: "?d < ?L" and kvs: "?h ! ?d = Dict kvs" and dk: "distinct (map fst kvs)"
    and ka: "set (map fst kvs) = set (map fst (TOOL_HOOKS s))"
    and ri: "read_items ?L ?h (map snd kvs) = Some (ts, as)"
    and rd: "read (Suc ?L) ?h (VRef ?d) = Some (TDict (zip (map fst kvs) ts), ?d # as)"
    and dist: "distinct (?d # as)"
    by blast
  let ?tp = "?L" and ?b = "Suc ?L" and ?td = "Suc ?L + ?k"
  let ?tdd = "Dict [(''name'', VStr (name f)), (''description'', VStr (strip (the (getdoc f)))),
                    (''params'', VRef ?L)]"
  let ?N = "[List (map VRef [?b ..< ?b + ?k])] @ map param_dict ?ps @ [?tdd]"
  let ?kvs' = "AList.update (name f) (VRef ?td) kvs"
  let ?H = "(?h @ ?N)[?d := Dict ?kvs']"
  let ?s' = "s\<lparr>heap := ?H, TOOL_HOOKS := AList.update (name f) f (TOOL_HOOKS s)\<rparr>"
  have reg: "register_tool f s = (Inr f, ?s')"
    using register_tool_ok[OF assms(2) d kvs] by simp
  have lenH: "length ?H = ?L + ?k + 2" by simp
  have Hd: "?H ! ?d = Dict ?kvs'" using d by simp
  have Hold: "?H ! a = ?h ! a" if "a < ?L" "a \<noteq> ?d" for a
    using that by (simp add: nth_append)
  have Htp: "?H ! ?tp = List (map VRef [?b ..< ?b + ?k])" using d by (simp add: nth_append)
  have Hps: "\<forall>i < ?k. ?b + i < length ?H \<and> ?H ! (?b + i) = param_dict (?ps ! i)"
    using d by (auto simp: nth_append)
  have Htd: "?H ! ?td = ?tdd" using d by (simp add: nth_append)
  have "read (Suc (Suc (Suc 0))) ?H (VRef ?td) =
          Some (TDict [(''name'', TStr (name f)), (''description'', TStr (strip (the (getdoc f)))),
                       (''params'', TList (map param_tree ?ps))],
                ?td # ?tp # [?b ..< ?b + ?k])"
    by (rule read_tool_entry[OF _ Htp Hps _ Htd]) simp_all
  then have "read (Suc (Suc (Suc 0))) ?H (VRef ?td) = Some (tool_tree f, ?td # ?tp # [?b ..< ?b + ?k])"
    by (simp add: tool_tree_def)
  from read_fuel(1)[OF this, of "length ?H"] d
  have rnew: "read (length ?H) ?H (VRef ?td) = Some (tool_tree f, ?td # ?tp # [?b ..< ?b + ?k])"
    by simp
  from read_fuel(2)[OF ri, of "length ?H"]
  have ri': "read_items (length ?H) ?h (map snd kvs) = Some (ts, as)" by simp
  have bound: "\<forall>a \<in> set as. a < ?L" using read_bound(2)[OF ri] .
  have loc: "\<forall>a \<in> set as. a < length ?H \<and> ?H ! a = ?h ! a"
  proof
    fix a assume a: "a \<in> set as"
    with bound have "a < ?L" by simp
    moreover from a dist have "a \<noteq> ?d" by auto
    ultimately show "a < length ?H \<and> ?H ! a = ?h ! a" using Hold by simp
  qed
  let ?aw = "?td # ?tp # [?b ..< ?b + ?k]"
  from read_items_update[OF ri' rnew loc, of "name f"] obtain as' where
    rup: "read_items (length ?H) ?H (map snd ?kvs') =
            Some (map snd (AList.update (name f) (tool_tree f) (zip (map fst kvs) ts)), as')"
    and sub: "set as' \<subseteq> set as \<union> set ?aw"
    and dimp: "distinct as \<longrightarrow> distinct ?aw \<longrightarrow> set as \<inter> set ?aw = {} \<longrightarrow> distinct as'"
    by blast
  have daw: "distinct ?aw" by auto
  have disj: "set as \<inter> set ?aw = {}" using bound by auto
  have das': "distinct as'" using dimp dist daw disj by simp
  have dnot: "?d \<notin> set as'"
  proof
    assume "?d \<in> set as'"
    with sub have "?d \<in> set as \<or> ?d \<in> set ?aw" by auto
    with dist d show False by auto
  qed
  let ?kts = "zip (map fst kvs) ts"
  have len: "length ts = length kvs" using read_items_length[OF ri] by simp
  have rd': "read (Suc (length ?H)) ?H (VRef ?d) =
               Some (TDict (AList.update (name f) (tool_tree f) ?kts), ?d # as')"
    using d Hd rup update_tree_keys[OF len, of "name f" "VRef ?td" "tool_tree f"]
    by simp
  have well_formed': "well_formed ?s'"
    unfolding well_formed_def keys_agree_def
    using d Hd rd' das' dnot distinct_update[OF dk, of "name f" "VRef ?td"] ka
      dom_update[of "name f" "VRef ?td" kvs] dom_update[of "name f" f "TOOL_HOOKS s"]
    by simp
  have c: "catalog s (VRef ?d) = Some (TDict ?kts)" using rd by (simp add: catalog_def)
  have c': "catalog ?s' (VRef ?d) = Some (TDict (AList.update (name f) (tool_tree f) ?kts))"
    using rd' by (simp add: catalog_def)
  show ?thesis using reg well_formed' c c' by (intro exI[of _ ?s'] exI[of _ ?kts]) simp
qed

lemma well_formed_init: "well_formed init"
  by (simp add: well_formed_def keys_agree_def init_def)

lemma well_formed_catalog_keys:
  assumes "well_formed s" and "catalog s (VRef (TOOL_DESCRIPTIONS s)) = Some t"
  shows "\<exists>kts. t = TDict kts \<and> distinct (map fst kts) \<and>
               set (map fst kts) = set (map fst (TOOL_HOOKS s))"
proof -
  from well_formed_D[OF assms(1)] obtain kvs ts as where
    d: "TOOL_DESCRIPTIONS s < length (heap s)"
    and kvs: "heap s ! TOOL_DESCRIPTIONS s = Dict kvs"
    and dk: "distinct (map fst kvs)"
    and ka: "set (map fst kvs) = set (map fst (TOOL_HOOKS s))"
    and ri: "read_items (length (heap s)) (heap s) (map snd kvs) = Some (ts, as)"
    and rd: "read (Suc (length (heap s))) (heap s) (VRef (TOOL_DESCRIPTIONS s)) =
               Some (TDict (zip (map fst kvs) ts), TOOL_DESCRIPTIONS s # as)"
    and dist: "distinct (TOOL_DESCRIPTIONS s # as)"
    by blast
  have l: "length ts = length kvs" using read_items_length[OF ri] by simp
  from rd assms(2) have t: "t = TDict (zip (map fst kvs) ts)" by (simp add: catalog_def)
  have "map fst (zip (map fst kvs) ts) = map fst kvs" using l by simp
  with t dk ka show ?thesis by metis
qed

lemma well_formed_frame:
  assumes "well_formed s"
  shows "well_formed (s\<lparr>heap := heap s @ e\<rparr>) \<and>
         catalog (s\<lparr>heap := heap s @ e\<rparr>) (VRef (TOOL_DESCRIPTIONS s)) =
           catalog s (VRef (TOOL_DESCRIPTIONS s))"
proof -
  let ?d = "TOOL_DESCRIPTIONS s" and ?h = "heap s"
  from well_formed_D[OF assms] obtain kvs ts as where
    d: "TOOL_DESCRIPTIONS s < length (heap s)"
    and kvs: "heap s ! TOOL_DESCRIPTIONS s = Dict kvs"
    and dk: "distinct (map fst kvs)"
    and ka: "set (map fst kvs) = set (map fst (TOOL_HOOKS s))"
    and ri: "read_items (length (heap s)) (heap s) (map snd kvs) = Some (ts, as)"
    and rd: "read (Suc (length (heap s))) (heap s) (VRef (TOOL_DESCRIPTIONS s)) =
               Some (TDict (zip (map fst kvs) ts), TOOL_DESCRIPTIONS s # as)"
    and dist: "distinct (TOOL_DESCRIPTIONS s # as)"
    by blast
  have "\<forall>a \<in> set (?d # as). a < length (?h @ e) \<and> (?h @ e) ! a = ?h ! a"
    using read_bound(1)[OF rd] by (auto simp: nth_append)
  from read_local(1)[OF rd this]
  have "read (Suc (length ?h)) (?h @ e) (VRef ?d) = Some (TDict (zip (map fst kvs) ts), ?d # as)" .
  from read_fuel(1)[OF this, of "Suc (length (?h @ e))"]
  have r: "read (Suc (length (?h @ e))) (?h @ e) (VRef ?d) =
             Some (TDict (zip (map fst kvs) ts), ?d # as)" by simp
  have "well_formed (s\<lparr>heap := ?h @ e\<rparr>)"
    unfolding well_formed_def keys_agree_def using d kvs dk ka r dist by (simp add: nth_append)
  moreover have "catalog (s\<lparr>heap := ?h @ e\<rparr>) (VRef ?d) = catalog s (VRef ?d)"
    using r rd by (simp add: catalog_def)
  ultimately show ?thesis by simp
qed

lemma get_tools_copy:
  assumes "well_formed s"
  shows "\<exists>v ext t. get_tools s = Some (v, s\<lparr>heap := heap s @ ext\<rparr>) \<and>
           catalog s (VRef (TOOL_DESCRIPTIONS s)) = Some t \<and>
           catalog (s\<lparr>heap := heap s @ ext\<rparr>) v = Some t \<and>
           addresses (s\<lparr>heap := heap s @ ext\<rparr>) v \<noteq> [] \<and>
           set (addresses (s\<lparr>heap := heap s @ ext\<rparr>) v) \<subseteq>
             {length (heap s) ..< length (heap s) + length ext}"
proof -
  let ?d = "TOOL_DESCRIPTIONS s" and ?h = "heap s"
  from well_formed_D[OF assms] obtain kvs ts as where
    d: "TOOL_DESCRIPTIONS s < length (heap s)"
    and kvs: "heap s ! TOOL_DESCRIPTIONS s = Dict kvs"
    and dk: "distinct (map fst kvs)"
    and ka: "set (map fst kvs) = set (map fst (TOOL_HOOKS s))"
    and ri: "read_items (length (heap s)) (heap s) (map snd kvs) = Some (ts, as)"
    and rd: "read (Suc (length (heap s))) (heap s) (VRef (TOOL_DESCRIPTIONS s)) =
               Some (TDict (zip (map fst kvs) ts), TOOL_DESCRIPTIONS s # as)"
    and dist: "distinct (TOOL_DESCRIPTIONS s # as)"
    by blast
  let ?t = "TDict (zip (map fst kvs) ts)"
  have p3: "set (?d # as) \<inter> fst ` set ([] :: memo) = {}" by simp
  have p5: "\<forall>a \<in> set (?d # as). a < length ?h \<and> ?h ! a = ?h ! a"
    using read_bound(1)[OF rd] by simp
  from deepcopy_tree(1)[OF rd dist p3 le_refl p5]
  obtain v ext m' as' where
    dc: "deepcopy (Suc (length ?h)) (VRef ?d) ?h [] = Some (v, ?h @ ext, m')" and
    r: "read (Suc (length ?h)) (?h @ ext) v = Some (?t, as')" and
    sub: "set as' \<subseteq> {length ?h ..< length ?h + length ext}"
    by blast
  from read_fuel(1)[OF r, of "Suc (length (?h @ ext))"]
  have r': "read (Suc (length (?h @ ext))) (?h @ ext) v = Some (?t, as')" by simp
  have ne: "as' \<noteq> []"
    using r by (cases v) (auto split: if_splits option.splits)
  have "get_tools s = Some (v, s\<lparr>heap := ?h @ ext\<rparr>)" using dc by (simp add: get_tools_def)
  moreover have "catalog s (VRef ?d) = Some ?t" using rd by (simp add: catalog_def)
  moreover have "catalog (s\<lparr>heap := ?h @ ext\<rparr>) v = Some ?t" using r' by (simp add: catalog_def)
  moreover have "addresses (s\<lparr>heap := ?h @ ext\<rparr>) v = as'" using r' by (simp add: addresses_def)
  ultimately show ?thesis using sub ne by auto
qed

lemma keys_agree_register_tool:
  assumes "keys_agree s"
  shows "keys_agree (snd (register_tool f s))"
proof (cases "valid f")
  case False
  from register_tool_invalid[OF False, of s] assms show ?thesis by auto
next
  case True
  from assms have d: "TOOL_DESCRIPTIONS s < length (heap s)" by (simp add: keys_agree_def)
  from assms obtain kvs where kvs: "heap s ! TOOL_DESCRIPTIONS s = Dict kvs"
    and ka: "set (map fst kvs) = set (map fst (TOOL_HOOKS s))"
    by (cases "heap s ! TOOL_DESCRIPTIONS s") (auto simp: keys_agree_def)
  show ?thesis
    unfolding register_tool_ok[OF True d kvs] keys_agree_def
    using d ka dom_update[of "name f" "VRef (Suc (length (heap s)) + length (parameters f))" kvs]
      dom_update[of "name f" f "TOOL_HOOKS s"]
    by simp
qed




lemma well_formed_loaded: "well_formed (loaded ev)"
proof -
  have v: "valid (get_weather_tool ev)" "valid (generate_md5_tool ev)"
    "valid (search_knowledge_base_tool ev)" "valid (query_ip_tool ev)"
    by (simp_all add: valid_def get_weather_tool_def generate_md5_tool_def
          search_knowledge_base_tool_def query_ip_tool_def metadata_1_def)
  have step: "well_formed (snd (register_tool f s))" if "well_formed s" "valid f" for f s
    using register_tool_catalog[OF that] by auto
  show ?thesis
    unfolding loaded_def by (simp add: step v well_formed_init)
qed

lemma get_tools_loaded: "\<exists>v s'. get_tools (loaded ev) = Some (v, s')"
  using get_tools_copy[OF well_formed_loaded, of ev] by blast

lemma get_tools_loaded_addresses:
  "map_option (\<lambda>(v, s'). hd (addresses s' v)) (get_tools (loaded quiet)) = Some 13"
  by code_simp

section \<open>The claims\<close>

text \<open>
  C1. What \<open>register_tool\<close> records for \<open>generate_md5\<close>, whose parameter is
  declared \<open>Annotated[str, ("The input string to hash", True)]\<close>: name, description
  and required flag are those of the declaration, but the type tag is \<open>Annotated\<close>,
  not \<open>str\<close>, since \<open>typ\<close> is taken from \<open>get_origin(annotation)\<close>.
\<close>

theorem register_tool_type_tag:
  "catalog (snd (register_tool (generate_md5_tool ev) init)) (VRef 0) =
     Some (TDict [(''generate_md5'',
        TDict [(''name'', TStr ''generate_md5''),
               (''description'', TStr ''Generate MD5 hash of the provided string.''),
               (''params'', TList [TDict [(''name'', TStr ''input_string''),
                                          (''description'', TStr ''The input string to hash''),
                                          (''type'', TStr ''Annotated''),
                                          (''required'', TBool True)]])])])"
  by code_simp



text \<open>
  C3. A declaration with a malformed parameter (no annotation, a bare type, metadata that
  is not a tuple or not of length two, a description that is not a string or a required
  flag that is not a bool) is rejected: \<open>register_tool\<close> raises, and the state after
  the raise is the state before it, so neither table has gained an entry. The exception
  is the \<open>TypeError\<close> of the failed check, unless the callable has no docstring,
  which raises \<open>AttributeError\<close> before the parameters are looked at.
\<close>

theorem register_tool_malformed:
  assumes "(pname, ann) \<in> set (parameters f)" and "malformed ann"
  shows "\<exists>e. register_tool f s = (Inl e, s) \<and>
             etype e = (if getdoc f = None then ''AttributeError'' else ''TypeError'')"
proof (cases "getdoc f")
  case None
  then show ?thesis by (simp add: register_tool_def)
next
  case (Some doc)
  from params_loop_malformed[OF assms]
  obtain m where "params_loop (parameters f) (heap s @ [List []]) (length (heap s)) = Inl (TypeError m)"
    by blast
  with Some show ?thesis
    by (simp add: register_tool_def alloc_def TypeError_def)
qed

theorem register_tool_malformed_witness:
  "\<exists>e. register_tool ((generate_md5_tool quiet)\<lparr>parameters := [(''input_string'', Bare (Class ''str''))]\<rparr>) (loaded quiet)
        = (Inl e, loaded quiet) \<and> etype e = ''TypeError''"
  using register_tool_malformed[of "''input_string''" "Bare (Class ''str'')"
     "(generate_md5_tool quiet)\<lparr>parameters := [(''input_string'', Bare (Class ''str''))]\<rparr>" "loaded quiet"]
  by (simp add: generate_md5_tool_def)

text \<open>
  C4. For a name that is not a key of \<open>_TOOL_HOOKS\<close>, \<open>dispatch_tool\<close> returns
  (it does not raise) the string saying that the tool was not found, which contains
  \<open>not found\<close>, whatever the arguments; the state is unchanged.
\<close>

theorem dispatch_tool_not_found:
  assumes "tool_name \<notin> fst ` set (TOOL_HOOKS s)"
  shows "dispatch_tool tool_name tool_params s =
           (Inr (''Tool `'' @ tool_name @ ''` not found. Please use a provided tool.''), s) \<and>
         sublist ''not found''
           (''Tool `'' @ tool_name @ ''` not found. Please use a provided tool.'')"
proof -
  from assms have "map_of (TOOL_HOOKS s) tool_name = None"
    by (simp add: map_of_eq_None_iff)
  moreover have "''Tool `'' @ tool_name @ ''` not found. Please use a provided tool.'' =
      (''Tool `'' @ tool_name @ ''` '') @ ''not found'' @ ''. Please use a provided tool.''"
    by simp
  then have "sublist ''not found''
           (''Tool `'' @ tool_name @ ''` not found. Please use a provided tool.'')"
    unfolding sublist_def by blast
  ultimately show ?thesis by (simp add: dispatch_tool_def)
qed

theorem dispatch_tool_not_found_witness:
  "dispatch_tool ''nonexistent_tool'' [] (loaded quiet) =
     (Inr ''Tool `nonexistent_tool` not found. Please use a provided tool.'', loaded quiet)"
proof -
  have h: "''nonexistent_tool'' \<notin> fst ` set (TOOL_HOOKS (loaded quiet))"
    by code_simp
  show ?thesis using dispatch_tool_not_found[OF h, of "[]"] by simp
qed

text \<open>
  C5. Registering two valid tools under one name raises no collision error, and the last
  one wins: the hook table and the catalog are what registering the second tool alone
  would have produced, the name maps to the second callable and to the second tool's
  definition, and it occurs once among the keys.
\<close>

theorem register_tool_last_write_wins:
  assumes "well_formed s" and "valid f1" and "valid f2" and "name f1 = name f2"
  shows "\<exists>s1 s2 s2' kts.
     register_tool f1 s = (Inr f1, s1) \<and> register_tool f2 s1 = (Inr f2, s2) \<and>
     register_tool f2 s = (Inr f2, s2') \<and>
     TOOL_HOOKS s2 = TOOL_HOOKS s2' \<and>
     map_of (TOOL_HOOKS s2) (name f2) = Some f2 \<and>
     catalog s2 (VRef (TOOL_DESCRIPTIONS s2)) = Some (TDict kts) \<and>
     catalog s2' (VRef (TOOL_DESCRIPTIONS s2')) = Some (TDict kts) \<and>
     map_of kts (name f2) = Some (tool_tree f2) \<and>
     distinct (map fst kts) \<and> set (map fst kts) = set (map fst (TOOL_HOOKS s2))"
proof -
  let ?d = "TOOL_DESCRIPTIONS s"
  from register_tool_catalog[OF assms(1,2)] obtain s1 k0 where
    r1: "register_tool f1 s = (Inr f1, s1)" and w1: "well_formed s1" and
    d1: "TOOL_DESCRIPTIONS s1 = ?d" and
    h1: "TOOL_HOOKS s1 = AList.update (name f1) f1 (TOOL_HOOKS s)" and
    c0: "catalog s (VRef ?d) = Some (TDict k0)" and
    c1: "catalog s1 (VRef ?d) = Some (TDict (AList.update (name f1) (tool_tree f1) k0))"
    by blast
  from register_tool_catalog[OF w1 assms(3)] obtain s2 k1 where
    r2: "register_tool f2 s1 = (Inr f2, s2)" and w2: "well_formed s2" and
    d2: "TOOL_DESCRIPTIONS s2 = TOOL_DESCRIPTIONS s1" and
    h2: "TOOL_HOOKS s2 = AList.update (name f2) f2 (TOOL_HOOKS s1)" and
    c1': "catalog s1 (VRef (TOOL_DESCRIPTIONS s1)) = Some (TDict k1)" and
    c2: "catalog s2 (VRef (TOOL_DESCRIPTIONS s1)) = Some (TDict (AList.update (name f2) (tool_tree f2) k1))"
    by blast
  from register_tool_catalog[OF assms(1,3)] obtain s2' k0' where
    r2': "register_tool f2 s = (Inr f2, s2')" and
    d2': "TOOL_DESCRIPTIONS s2' = ?d" and
    h2': "TOOL_HOOKS s2' = AList.update (name f2) f2 (TOOL_HOOKS s)" and
    c0': "catalog s (VRef ?d) = Some (TDict k0')" and
    c2': "catalog s2' (VRef ?d) = Some (TDict (AList.update (name f2) (tool_tree f2) k0'))"
    by blast
  let ?kts = "AList.update (name f2) (tool_tree f2) k0"
  from c1 c1' d1 have k1: "k1 = AList.update (name f1) (tool_tree f1) k0" by simp
  from c0 c0' have k0': "k0' = k0" by simp
  have cs2: "catalog s2 (VRef (TOOL_DESCRIPTIONS s2)) = Some (TDict ?kts)"
    using c2 d2 k1 assms(4) by simp
  have cs2': "catalog s2' (VRef (TOOL_DESCRIPTIONS s2')) = Some (TDict ?kts)"
    using c2' d2' k0' by simp
  have hh: "TOOL_HOOKS s2 = TOOL_HOOKS s2'" using h1 h2 h2' assms(4) by simp
  have lk: "map_of (TOOL_HOOKS s2) (name f2) = Some f2" using h2 by (simp add: update_conv')
  have lt: "map_of ?kts (name f2) = Some (tool_tree f2)" by (simp add: update_conv')
  from well_formed_catalog_keys[OF w2 cs2] have dk: "distinct (map fst ?kts)"
    and ks: "set (map fst ?kts) = set (map fst (TOOL_HOOKS s2))" by auto
  show ?thesis
    by (rule exI[of _ s1], rule exI[of _ s2], rule exI[of _ s2'], rule exI[of _ ?kts])
       (intro conjI r1 r2 r2' hh lk cs2 cs2' lt dk ks)
qed

theorem register_tool_last_write_wins_witness:
  "\<exists>s1 s2 kts.
     register_tool generate_md5_v0 (loaded quiet) = (Inr generate_md5_v0, s1) \<and>
     register_tool (generate_md5_tool quiet) s1 = (Inr (generate_md5_tool quiet), s2) \<and>
     map_of (TOOL_HOOKS s2) ''generate_md5'' = Some (generate_md5_tool quiet) \<and>
     catalog s2 (VRef (TOOL_DESCRIPTIONS s2)) = Some (TDict kts) \<and>
     map_of kts ''generate_md5'' = Some (tool_tree (generate_md5_tool quiet))"
proof -
  have 1: "well_formed (loaded quiet)" by code_simp
  have 2: "valid generate_md5_v0" by code_simp
  have 3: "valid (generate_md5_tool quiet)" by code_simp
  have 4: "name generate_md5_v0 = name (generate_md5_tool quiet)" by code_simp
  have 5: "name (generate_md5_tool quiet) = ''generate_md5''" by code_simp
  from register_tool_last_write_wins[OF 1 2 3 4] show ?thesis unfolding 5 by blast
qed

text \<open>
  C6. In a well-formed registry \<open>get_tools\<close> returns a structure with the contents of
  \<open>_TOOL_DESCRIPTIONS\<close>: a dict with one entry per registered tool. All its containers
  are new objects. Replacing any of them by any object leaves \<open>_TOOL_HOOKS\<close>, every
  object of the registry and the contents of \<open>_TOOL_DESCRIPTIONS\<close> as they were, and
  a later \<open>get_tools\<close> returns a structure with the same contents again.
\<close>

theorem get_tools_independent_copy:
  assumes "well_formed s"
  shows "\<exists>v s' kts.
     get_tools s = Some (v, s') \<and>
     catalog s (VRef (TOOL_DESCRIPTIONS s)) = Some (TDict kts) \<and>
     catalog s' v = Some (TDict kts) \<and>
     distinct (map fst kts) \<and> set (map fst kts) = set (map fst (TOOL_HOOKS s)) \<and>
     addresses s' v \<noteq> [] \<and>
     (\<forall>a \<in> set (addresses s' v). length (heap s) \<le> a \<and> a < length (heap s')) \<and>
     (\<forall>a \<in> set (addresses s' v). \<forall>ob.
        TOOL_HOOKS (s'\<lparr>heap := (heap s')[a := ob]\<rparr>) = TOOL_HOOKS s \<and>
        take (length (heap s)) (heap (s'\<lparr>heap := (heap s')[a := ob]\<rparr>)) = heap s \<and>
        catalog (s'\<lparr>heap := (heap s')[a := ob]\<rparr>) (VRef (TOOL_DESCRIPTIONS s)) =
          Some (TDict kts) \<and>
        (\<exists>v2 s3. get_tools (s'\<lparr>heap := (heap s')[a := ob]\<rparr>) = Some (v2, s3) \<and>
                  catalog s3 v2 = Some (TDict kts)))"
proof -
  let ?d = "TOOL_DESCRIPTIONS s" and ?h = "heap s"
  from get_tools_copy[OF assms] obtain v ext t where
    g: "get_tools s = Some (v, s\<lparr>heap := ?h @ ext\<rparr>)" and
    c: "catalog s (VRef ?d) = Some t" and
    c': "catalog (s\<lparr>heap := ?h @ ext\<rparr>) v = Some t" and
    ne: "addresses (s\<lparr>heap := ?h @ ext\<rparr>) v \<noteq> []" and
    sub: "set (addresses (s\<lparr>heap := ?h @ ext\<rparr>) v) \<subseteq> {length ?h ..< length ?h + length ext}"
    by blast
  from well_formed_catalog_keys[OF assms c] obtain kts where
    t: "t = TDict kts" and dk: "distinct (map fst kts)"
    and ka: "set (map fst kts) = set (map fst (TOOL_HOOKS s))" by blast
  let ?s' = "s\<lparr>heap := ?h @ ext\<rparr>"
  have mut: "TOOL_HOOKS (?s'\<lparr>heap := (heap ?s')[a := ob]\<rparr>) = TOOL_HOOKS s \<and>
        take (length ?h) (heap (?s'\<lparr>heap := (heap ?s')[a := ob]\<rparr>)) = ?h \<and>
        catalog (?s'\<lparr>heap := (heap ?s')[a := ob]\<rparr>) (VRef ?d) = Some (TDict kts) \<and>
        (\<exists>v2 s3. get_tools (?s'\<lparr>heap := (heap ?s')[a := ob]\<rparr>) = Some (v2, s3) \<and>
                  catalog s3 v2 = Some (TDict kts))"
    if a: "a \<in> set (addresses ?s' v)" for a ob
  proof -
    from a sub have "length ?h \<le> a" by auto
    then have eq: "?s'\<lparr>heap := (heap ?s')[a := ob]\<rparr> = s\<lparr>heap := ?h @ ext[a - length ?h := ob]\<rparr>"
      by (simp add: list_update_append)
    let ?s2 = "s\<lparr>heap := ?h @ ext[a - length ?h := ob]\<rparr>"
    from well_formed_frame[OF assms, of "ext[a - length ?h := ob]"]
    have w2: "well_formed ?s2" and c2: "catalog ?s2 (VRef ?d) = Some (TDict kts)"
      using c t by simp_all
    from get_tools_copy[OF w2] obtain v2 e2 t2 where
      g2: "get_tools ?s2 = Some (v2, ?s2\<lparr>heap := heap ?s2 @ e2\<rparr>)" and
      c3: "catalog ?s2 (VRef (TOOL_DESCRIPTIONS ?s2)) = Some t2" and
      c4: "catalog (?s2\<lparr>heap := heap ?s2 @ e2\<rparr>) v2 = Some t2"
      by blast
    from c3 c2 have "t2 = TDict kts" by simp
    with g2 c4 have "\<exists>v2 s3. get_tools ?s2 = Some (v2, s3) \<and> catalog s3 v2 = Some (TDict kts)"
      by blast
    moreover have "TOOL_HOOKS ?s2 = TOOL_HOOKS s" by simp
    moreover have "take (length ?h) (heap ?s2) = ?h" by simp
    ultimately show ?thesis unfolding eq using c2 by blast
  qed
  have A: "\<forall>a \<in> set (addresses ?s' v). length ?h \<le> a \<and> a < length (heap ?s')"
    using sub by auto
  have B: "\<forall>a \<in> set (addresses ?s' v). \<forall>ob.
        TOOL_HOOKS (?s'\<lparr>heap := (heap ?s')[a := ob]\<rparr>) = TOOL_HOOKS s \<and>
        take (length ?h) (heap (?s'\<lparr>heap := (heap ?s')[a := ob]\<rparr>)) = ?h \<and>
        catalog (?s'\<lparr>heap := (heap ?s')[a := ob]\<rparr>) (VRef ?d) = Some (TDict kts) \<and>
        (\<exists>v2 s3. get_tools (?s'\<lparr>heap := (heap ?s')[a := ob]\<rparr>) = Some (v2, s3) \<and>
                  catalog s3 v2 = Some (TDict kts))"
    using mut by (intro ballI allI)
  show ?thesis
    by (rule exI[of _ v], rule exI[of _ ?s'], rule exI[of _ kts])
       (intro conjI g c[unfolded t] c'[unfolded t] dk ka ne A B)
qed

theorem get_tools_independent_copy_witness:
  "\<exists>v s' kts.
     get_tools (loaded quiet) = Some (v, s') \<and>
     catalog (loaded quiet) (VRef (TOOL_DESCRIPTIONS (loaded quiet))) = Some (TDict kts) \<and>
     catalog s' v = Some (TDict kts) \<and>
     13 \<in> set (addresses s' v) \<and>
     catalog (s'\<lparr>heap := (heap s')[13 := Dict []]\<rparr>) (VRef (TOOL_DESCRIPTIONS (loaded quiet))) =
       Some (TDict kts) \<and>
     (\<exists>v2 s3. get_tools (s'\<lparr>heap := (heap s')[13 := Dict []]\<rparr>) = Some (v2, s3) \<and>
               catalog s3 v2 = Some (TDict kts))"
proof -
  have h: "well_formed (loaded quiet)" by code_simp
  from get_tools_independent_copy[OF h] obtain v s' kts where
    g: "get_tools (loaded quiet) = Some (v, s')" and
    c: "catalog (loaded quiet) (VRef (TOOL_DESCRIPTIONS (loaded quiet))) = Some (TDict kts)" and
    c': "catalog s' v = Some (TDict kts)" and
    ne: "addresses s' v \<noteq> []" and
    m: "\<forall>a \<in> set (addresses s' v). \<forall>ob.
        TOOL_HOOKS (s'\<lparr>heap := (heap s')[a := ob]\<rparr>) = TOOL_HOOKS (loaded quiet) \<and>
        take (length (heap (loaded quiet))) (heap (s'\<lparr>heap := (heap s')[a := ob]\<rparr>)) =
          heap (loaded quiet) \<and>
        catalog (s'\<lparr>heap := (heap s')[a := ob]\<rparr>) (VRef (TOOL_DESCRIPTIONS (loaded quiet))) =
          Some (TDict kts) \<and>
        (\<exists>v2 s3. get_tools (s'\<lparr>heap := (heap s')[a := ob]\<rparr>) = Some (v2, s3) \<and>
                  catalog s3 v2 = Some (TDict kts))"
    by blast
  from get_tools_loaded_addresses g have "hd (addresses s' v) = 13" by simp
  with ne have a: "13 \<in> set (addresses s' v)" by (metis hd_in_set)
  from m[rule_format, OF a, of "Dict []"] g c c' a show ?thesis by blast
qed

text \<open>
  C7. Once the module is loaded, dispatching \<open>generate_md5\<close> on the input string
  \<open>abc\<close> returns the hex digest \<open>900150983cd24fb0d6963f7d28e17f72\<close>.
\<close>

theorem generate_md5_abc:
  "fst (dispatch_tool ''generate_md5'' [(''input_string'', PStr ''abc'')] (loaded ev)) =
     Inr ''900150983cd24fb0d6963f7d28e17f72''"
  by code_simp

text \<open>
  C8, as stated, fails: a callable whose docstring is empty is registered, not rejected.
\<close>

theorem register_tool_empty_description:
  "\<not> isl (fst (register_tool ((generate_md5_tool quiet)\<lparr>getdoc := Some []\<rparr>) init))"
  by code_simp

text \<open>
  C8, amended. A callable without docstring is rejected, by the \<open>AttributeError\<close> of
  \<open>None.strip()\<close>, and the state is unchanged. A callable with a docstring, also an
  empty or blank one, is not rejected for its description: with well-formed parameters it
  is registered, and its catalog entry carries the stripped docstring.
\<close>

theorem register_tool_description:
  "(getdoc f = None \<longrightarrow>
      (\<exists>e. register_tool f s = (Inl e, s) \<and> etype e = ''AttributeError'')) \<and>
   (getdoc f \<noteq> None \<longrightarrow> list_all (\<lambda>p. \<not> malformed (snd p)) (parameters f) \<longrightarrow>
    well_formed s \<longrightarrow>
      (\<exists>s' kts. register_tool f s = (Inr f, s') \<and>
         catalog s' (VRef (TOOL_DESCRIPTIONS s')) = Some (TDict kts) \<and>
         map_of kts (name f) =
           Some (TDict [(''name'', TStr (name f)),
                        (''description'', TStr (strip (the (getdoc f)))),
                        (''params'', TList (map param_tree (parameters f)))])))"
proof -
  have a: "\<exists>e. register_tool f s = (Inl e, s) \<and> etype e = ''AttributeError''"
    if "getdoc f = None"
    using that by (simp add: register_tool_def)
  have b: "\<exists>s' kts. register_tool f s = (Inr f, s') \<and>
         catalog s' (VRef (TOOL_DESCRIPTIONS s')) = Some (TDict kts) \<and>
         map_of kts (name f) = Some (tool_tree f)"
    if v: "valid f" and w: "well_formed s"
  proof -
    from register_tool_catalog[OF w v] obtain s' k0 where
      r: "register_tool f s = (Inr f, s')" and d: "TOOL_DESCRIPTIONS s' = TOOL_DESCRIPTIONS s"
      and c: "catalog s' (VRef (TOOL_DESCRIPTIONS s)) =
                Some (TDict (AList.update (name f) (tool_tree f) k0))"
      by blast
    have "map_of (AList.update (name f) (tool_tree f) k0) (name f) = Some (tool_tree f)"
      by (simp add: update_conv')
    with r d c show ?thesis by auto
  qed
  show ?thesis using a b by (simp add: valid_def tool_tree_def)
qed

theorem register_tool_description_witness:
  "(\<exists>e. register_tool ((generate_md5_tool quiet)\<lparr>getdoc := None\<rparr>) (loaded quiet) =
          (Inl e, loaded quiet) \<and> etype e = ''AttributeError'') \<and>
   (\<exists>s' kts. register_tool ((generate_md5_tool quiet)\<lparr>getdoc := Some ''  ''\<rparr>) (loaded quiet) =
          (Inr ((generate_md5_tool quiet)\<lparr>getdoc := Some ''  ''\<rparr>), s') \<and>
        catalog s' (VRef (TOOL_DESCRIPTIONS s')) = Some (TDict kts) \<and>
        map_of kts ''generate_md5'' =
          Some (TDict [(''name'', TStr ''generate_md5''), (''description'', TStr []),
                       (''params'', TList [param_tree (''input_string'',
                                              metadata_1 ''The input string to hash'')])]))"
proof -
  let ?f = "(generate_md5_tool quiet)\<lparr>getdoc := None\<rparr>"
  let ?g = "(generate_md5_tool quiet)\<lparr>getdoc := Some ''  ''\<rparr>"
  have 1: "getdoc ?f = None" by simp
  have 2: "getdoc ?g \<noteq> None" by simp
  have 3: "list_all (\<lambda>p. \<not> malformed (snd p)) (parameters ?g)" by code_simp
  have 4: "well_formed (loaded quiet)" by code_simp
  have 5: "name ?g = ''generate_md5''" "strip (the (getdoc ?g)) = []"
    "parameters ?g = [(''input_string'', metadata_1 ''The input string to hash'')]"
    by (simp_all add: generate_md5_tool_def strip_def isspace_def)
  from register_tool_description[of ?f "loaded quiet"] 1
  have a: "\<exists>e. register_tool ?f (loaded quiet) = (Inl e, loaded quiet) \<and>
               etype e = ''AttributeError''" by blast
  from register_tool_description[of ?g "loaded quiet"] 2 3 4
  have "\<exists>s' kts. register_tool ?g (loaded quiet) = (Inr ?g, s') \<and>
         catalog s' (VRef (TOOL_DESCRIPTIONS s')) = Some (TDict kts) \<and>
         map_of kts (name ?g) =
           Some (TDict [(''name'', TStr (name ?g)),
                        (''description'', TStr (strip (the (getdoc ?g)))),
                        (''params'', TList (map param_tree (parameters ?g)))])"
    by blast
  then show ?thesis using a unfolding 5 by simp
qed

text \<open>
  C9. The two tables have the same keys initially, and every operation keeps it so:
  \<open>register_tool\<close> (whether it succeeds or raises), \<open>dispatch_tool\<close> and
  \<open>get_tools\<close>.
\<close>

theorem keys_agree_invariant:
  "keys_agree init \<and>
   (keys_agree s \<longrightarrow>
      keys_agree (snd (register_tool f s)) \<and>
      keys_agree (snd (dispatch_tool tool_name tool_params s)) \<and>
      (\<forall>v s'. get_tools s = Some (v, s') \<longrightarrow> keys_agree s'))"
proof -
  have 0: "keys_agree init" by (simp add: keys_agree_def init_def)
  have 1: "keys_agree (snd (dispatch_tool tool_name tool_params s))" if "keys_agree s"
    using that by (simp add: dispatch_tool_def Let_def split: option.split)
  have 2: "keys_agree s'" if k: "keys_agree s" and g: "get_tools s = Some (v, s')" for v s'
  proof -
    from get_tools_extends[OF g] obtain ext where "s' = s\<lparr>heap := heap s @ ext\<rparr>" by blast
    with k show ?thesis by (auto simp: keys_agree_def nth_append split: obj.splits)
  qed
  from 0 1 2 keys_agree_register_tool show ?thesis by blast
qed

theorem keys_agree_invariant_witness:
  "keys_agree (loaded quiet) \<and>
   keys_agree (snd (register_tool (query_ip_tool quiet) (loaded quiet))) \<and>
   keys_agree (snd (dispatch_tool ''query_ip'' [] (loaded quiet))) \<and>
   (\<exists>v s'. get_tools (loaded quiet) = Some (v, s') \<and> keys_agree s')"
proof -
  have h: "keys_agree (loaded quiet)" by code_simp
  from get_tools_loaded[of quiet] obtain v s' where g: "get_tools (loaded quiet) = Some (v, s')"
    by blast
  from keys_agree_invariant[of "loaded quiet" "query_ip_tool quiet" "''query_ip''" "[]"] h g
  show ?thesis by blast
qed

text \<open>
  C10. Neither \<open>dispatch_tool\<close> nor \<open>get_tools\<close> writes to the registry:
  \<open>dispatch_tool\<close> leaves the whole state as it was, and \<open>get_tools\<close> leaves
  \<open>_TOOL_HOOKS\<close>, the address of \<open>_TOOL_DESCRIPTIONS\<close> and every object that
  existed before the call as they were; it only allocates the objects of the copy.
\<close>

theorem readers_keep_registry:
  "snd (dispatch_tool tool_name tool_params s) = s \<and>
   (\<forall>v s'. get_tools s = Some (v, s') \<longrightarrow>
      TOOL_HOOKS s' = TOOL_HOOKS s \<and> TOOL_DESCRIPTIONS s' = TOOL_DESCRIPTIONS s \<and>
      (\<exists>ext. heap s' = heap s @ ext))"
proof -
  have "snd (dispatch_tool tool_name tool_params s) = s"
    by (simp add: dispatch_tool_def Let_def split: option.split)
  moreover have "TOOL_HOOKS s' = TOOL_HOOKS s \<and> TOOL_DESCRIPTIONS s' = TOOL_DESCRIPTIONS s \<and>
      (\<exists>ext. heap s' = heap s @ ext)" if "get_tools s = Some (v, s')" for v s'
    using get_tools_extends[OF that] by auto
  ultimately show ?thesis by blast
qed

theorem readers_keep_registry_witness:
  "snd (dispatch_tool ''generate_md5'' [(''input_string'', PStr ''abc'')] (loaded quiet)) =
     loaded quiet \<and>
   (\<exists>v s'. get_tools (loaded quiet) = Some (v, s') \<and>
            TOOL_HOOKS s' = TOOL_HOOKS (loaded quiet) \<and>
            TOOL_DESCRIPTIONS s' = TOOL_DESCRIPTIONS (loaded quiet) \<and>
            (\<exists>ext. heap s' = heap (loaded quiet) @ ext))"
proof -
  from get_tools_loaded[of quiet] obtain v s' where g: "get_tools (loaded quiet) = Some (v, s')"
    by blast
  from readers_keep_registry[of "''generate_md5''" "[(''input_string'', PStr ''abc'')]" "loaded quiet"] g
  show ?thesis by blast
qed

end
